theory Spec2Isabelle
  imports Main
begin

section \<open>Strings\<close>

text \<open>
  A JavaScript string is modelled as a \<^typ>\<open>string\<close>: each \<^typ>\<open>char\<close> stands for one
  UTF-16 code unit in the range 0..255, so \<^const>\<open>length\<close> is the \<open>.length\<close> of the source.
  Every literal, keyword and regular expression of the source is ASCII; white space, line
  terminators and letter case are those of JavaScript on this range.
\<close>

definition NL :: char where
  "NL = CHR 0x0A"

definition isLineTerminator :: "char \<Rightarrow> bool" where
  \<comment> \<open>what \<open>.\<close> refuses and what \<open>^\<close>, \<open>$\<close> look at under the \<open>m\<close> flag: LF and CR\<close>
  "isLineTerminator c = (c = CHR 0x0A \<or> c = CHR 0x0D)"

definition isWhiteSpace :: "char \<Rightarrow> bool" where
  \<comment> \<open>\<open>trim()\<close> and \<open>\s\<close>: TAB, LF, VT, FF, CR, space, NBSP\<close>
  "isWhiteSpace c = (c \<in> set [CHR 0x09, CHR 0x0A, CHR 0x0B, CHR 0x0C, CHR 0x0D, CHR 0x20, CHR 0xA0])"

definition isDigit :: "char \<Rightarrow> bool" where
  \<comment> \<open>\<open>\d\<close>\<close>
  "isDigit c = (c \<in> set ''0123456789'')"

definition upperLetters :: string where
  \<comment> \<open>\<open>A-Z\<close>, then the Latin-1 capitals \<open>U+00C0..U+00DE\<close> without the sign \<open>U+00D7\<close>\<close>
  "upperLetters = ''ABCDEFGHIJKLMNOPQRSTUVWXYZ'' @ [
       CHR 0xC0, CHR 0xC1, CHR 0xC2, CHR 0xC3, CHR 0xC4, CHR 0xC5, CHR 0xC6, CHR 0xC7,
       CHR 0xC8, CHR 0xC9, CHR 0xCA, CHR 0xCB, CHR 0xCC, CHR 0xCD, CHR 0xCE, CHR 0xCF,
       CHR 0xD0, CHR 0xD1, CHR 0xD2, CHR 0xD3, CHR 0xD4, CHR 0xD5, CHR 0xD6, CHR 0xD8,
       CHR 0xD9, CHR 0xDA, CHR 0xDB, CHR 0xDC, CHR 0xDD, CHR 0xDE ]"

definition lowerLetters :: string where
  \<comment> \<open>their lower-case forms, in the same order: \<open>a-z\<close>, \<open>U+00E0..U+00FE\<close> without \<open>U+00F7\<close>\<close>
  "lowerLetters = ''abcdefghijklmnopqrstuvwxyz'' @ [
       CHR 0xE0, CHR 0xE1, CHR 0xE2, CHR 0xE3, CHR 0xE4, CHR 0xE5, CHR 0xE6, CHR 0xE7,
       CHR 0xE8, CHR 0xE9, CHR 0xEA, CHR 0xEB, CHR 0xEC, CHR 0xED, CHR 0xEE, CHR 0xEF,
       CHR 0xF0, CHR 0xF1, CHR 0xF2, CHR 0xF3, CHR 0xF4, CHR 0xF5, CHR 0xF6, CHR 0xF8,
       CHR 0xF9, CHR 0xFA, CHR 0xFB, CHR 0xFC, CHR 0xFD, CHR 0xFE ]"

definition isAsciiLetter :: "char \<Rightarrow> bool" where
  "isAsciiLetter c = (c \<in> set ''ABCDEFGHIJKLMNOPQRSTUVWXYZabcdefghijklmnopqrstuvwxyz'')"

definition isWordChar :: "char \<Rightarrow> bool" where
  \<comment> \<open>\<open>\w\<close> is \<open>[A-Za-z0-9_]\<close>\<close>
  "isWordChar c = (isAsciiLetter c \<or> isDigit c \<or> c = CHR ''_'')"

definition toLowerChar :: "char \<Rightarrow> char" where
  "toLowerChar c = (case map_of (zip upperLetters lowerLetters) c of Some l \<Rightarrow> l | None \<Rightarrow> c)"

definition toLowerCase :: "string \<Rightarrow> string" where
  "toLowerCase s = map toLowerChar s"

definition startsWith :: "string \<Rightarrow> string \<Rightarrow> bool" where
  "startsWith s p = (take (length p) s = p)"

fun includesStr :: "string \<Rightarrow> string \<Rightarrow> bool" where
  \<comment> \<open>\<open>s.includes(p)\<close>\<close>
  "includesStr [] p = (p = [])"
| "includesStr (c # cs) p = (startsWith (c # cs) p \<or> includesStr cs p)"

definition trim :: "string \<Rightarrow> string" where
  "trim s = rev (dropWhile isWhiteSpace (rev (dropWhile isWhiteSpace s)))"

fun split_nl :: "string \<Rightarrow> string list" where
  \<comment> \<open>\<open>s.split('\n')\<close>\<close>
  "split_nl [] = [[]]"
| "split_nl (c # cs) =
     (if c = NL then [] # split_nl cs
      else (case split_nl cs of [] \<Rightarrow> [[c]] | l # ls \<Rightarrow> (c # l) # ls))"

fun join_nl :: "string list \<Rightarrow> string" where
  \<comment> \<open>\<open>lines.join('\n')\<close>\<close>
  "join_nl [] = []"
| "join_nl [l] = l"
| "join_nl (l # ls) = l @ NL # join_nl ls"

fun count_occ :: "string \<Rightarrow> string \<Rightarrow> nat" where
  \<comment> \<open>the number of positions of \<open>s\<close> at which \<open>p\<close> occurs\<close>
  "count_occ p [] = (if p = [] then 1 else 0)"
| "count_occ p (c # cs) = (if startsWith (c # cs) p then 1 else 0) + count_occ p cs"

function toString :: "nat \<Rightarrow> string" where
  \<comment> \<open>the decimal digits of a non-negative integer, as a template literal prints it\<close>
  "toString n = (if n < 10 then [''0123456789'' ! n] else toString (n div 10) @ [''0123456789'' ! (n mod 10)])"
  by pat_completeness auto
termination
  by (relation "measure id") auto

declare toString.simps [simp del]

section \<open>Regular expressions of the sanitizer\<close>

text \<open>
  The patterns of \<open>validateAndCleanContract\<close> are sequences of literal characters, a lazy
  \<open>.*?\<close>, a greedy \<open>.*\<close>, the anchors \<open>^\<close> and \<open>$\<close> (always under the \<open>m\<close> flag) and an
  optional line feed. \<open>matchHere\<close> is the backtracking matcher at one position: it returns
  the length of the match the engine finds first. \<open>prev\<close> is the character before the
  position (\<open>None\<close> at the start of the text).
\<close>

datatype atom = Lit char | AnyLazy | AnyGreedy | Bol | Eol | OptNl

definition lit :: "string \<Rightarrow> atom list" where
  "lit s = map Lit s"

fun flipCase :: "char \<Rightarrow> char" where
  \<comment> \<open>the two cases of an ASCII letter differ in the bit \<open>0x20\<close>\<close>
  "flipCase (Char b0 b1 b2 b3 b4 b5 b6 b7) = Char b0 b1 b2 b3 b4 (\<not> b5) b6 b7"

definition sameChar :: "bool \<Rightarrow> char \<Rightarrow> char \<Rightarrow> bool" where
  \<comment> \<open>a literal \<open>c\<close> of a pattern against a character \<open>x\<close> of the text; under the \<open>i\<close> flag
      an ASCII letter of the pattern matches both of its cases\<close>
  "sameChar ic c x =
     (if c = x then True
      else if ic then (if x = flipCase c then isAsciiLetter c else False)
      else False)"

fun matchHere :: "bool \<Rightarrow> atom list \<Rightarrow> char option \<Rightarrow> string \<Rightarrow> nat option" where
  "matchHere ic [] prev s = Some 0"
| "matchHere ic (Lit c # as) prev [] = None"
| "matchHere ic (Lit c # as) prev (x # xs) =
     (if sameChar ic c x then map_option Suc (matchHere ic as (Some x) xs) else None)"
| "matchHere ic (AnyLazy # as) prev s =
     (case matchHere ic as prev s of
        Some n \<Rightarrow> Some n
      | None \<Rightarrow>
         (case s of
            [] \<Rightarrow> None
          | x # xs \<Rightarrow>
              if isLineTerminator x then None
              else map_option Suc (matchHere ic (AnyLazy # as) (Some x) xs)))"
| "matchHere ic (AnyGreedy # as) prev s =
     (case s of
        [] \<Rightarrow> matchHere ic as prev []
      | x # xs \<Rightarrow>
          if isLineTerminator x then matchHere ic as prev (x # xs)
          else (case matchHere ic (AnyGreedy # as) (Some x) xs of
                  Some n \<Rightarrow> Some (Suc n)
                | None \<Rightarrow> matchHere ic as prev (x # xs)))"
| "matchHere ic (Bol # as) prev s =
     (if (case prev of None \<Rightarrow> True | Some p \<Rightarrow> isLineTerminator p)
      then matchHere ic as prev s else None)"
| "matchHere ic (Eol # as) prev s =
     (if (case s of [] \<Rightarrow> True | x # _ \<Rightarrow> isLineTerminator x)
      then matchHere ic as prev s else None)"
| "matchHere ic (OptNl # as) prev s =
     (case s of
        [] \<Rightarrow> matchHere ic as prev []
      | x # xs \<Rightarrow>
          if x = NL
          then (case matchHere ic as (Some x) xs of
                  Some n \<Rightarrow> Some (Suc n)
                | None \<Rightarrow> matchHere ic as prev (x # xs))
          else matchHere ic as prev (x # xs))"

text \<open>
  \<open>s.replace(/pat/g, '')\<close>: scan from the left, delete each match and go on behind it.
  The counter is the number of characters of the current match still to delete.
\<close>

fun removeAll :: "bool \<Rightarrow> atom list \<Rightarrow> char option \<Rightarrow> nat \<Rightarrow> string \<Rightarrow> string" where
  "removeAll ic pat prev k [] = []"
| "removeAll ic pat prev (Suc k) (x # xs) = removeAll ic pat (Some x) k xs"
| "removeAll ic pat prev 0 (x # xs) =
     (case matchHere ic pat prev (x # xs) of
        Some (Suc n) \<Rightarrow> removeAll ic pat (Some x) n xs
      | _ \<Rightarrow> x # removeAll ic pat (Some x) 0 xs)"

definition replaceEmpty :: "bool \<times> atom list \<Rightarrow> string \<Rightarrow> string" where
  "replaceEmpty p s = removeAll (fst p) (snd p) None 0 s"

definition fenceSolidity :: "bool \<times> atom list" where
  \<comment> \<open>\<open>/```solidity\n?/g\<close>\<close>
  "fenceSolidity = (False, lit ''```solidity'' @ [OptNl])"

definition fence :: "bool \<times> atom list" where
  \<comment> \<open>\<open>/```\n?/g\<close>\<close>
  "fence = (False, lit ''```'' @ [OptNl])"

definition explanatoryPatterns :: "(bool \<times> atom list) list" where
  "explanatoryPatterns =
    [ (True, lit ''Here's'' @ [AnyLazy] @ lit ''contract'' @ [AnyLazy] @ lit '':''),
      (True, lit ''This'' @ [AnyLazy] @ lit ''contract'' @ [AnyLazy] @ lit '':''),
      (True, lit ''I'll'' @ [AnyLazy] @ lit ''create'' @ [AnyLazy] @ lit '':''),
      (True, lit ''Below is'' @ [AnyLazy] @ lit '':''),
      (True, lit ''The following'' @ [AnyLazy] @ lit '':''),
      (True, lit ''Here is'' @ [AnyLazy] @ lit '':''),
      (True, lit ''This is'' @ [AnyLazy] @ lit '':''),
      (True, [Bol, AnyLazy] @ lit ''implementation'' @ [AnyLazy] @ lit '':''),
      (True, [Bol, AnyLazy] @ lit ''example'' @ [AnyLazy] @ lit '':''),
      (True, [Bol, AnyLazy] @ lit ''solution'' @ [AnyLazy] @ lit '':''),
      (True, [Bol] @ lit ''Note:'' @ [AnyGreedy, Eol]),
      (True, [Bol] @ lit ''Important:'' @ [AnyGreedy, Eol]),
      (True, [Bol] @ lit ''Remember:'' @ [AnyGreedy, Eol]),
      (True, [Bol] @ lit ''**'' @ [AnyLazy] @ lit ''**'' @ [Eol]),
      (True, [Bol] @ lit ''## '' @ [AnyGreedy, Eol]),
      (True, [Bol] @ lit ''# '' @ [AnyGreedy, Eol]) ]"

definition stripText :: "string \<Rightarrow> string" where
  \<comment> \<open>the two fence replacements, then the loop over \<open>explanatoryPatterns\<close>\<close>
  "stripText code =
     foldl (\<lambda>cleaned pattern. replaceEmpty pattern cleaned)
       (replaceEmpty fence (replaceEmpty fenceSolidity code)) explanatoryPatterns"

section \<open>The sanitizer: \<open>validateAndCleanContract\<close>\<close>

datatype error = Error string | TypeError string

fun errorName :: "error \<Rightarrow> string" where
  "errorName (Error m) = ''Error''"
| "errorName (TypeError m) = ''TypeError''"

fun errorMessage :: "error \<Rightarrow> string" where
  "errorMessage (Error m) = m"
| "errorMessage (TypeError m) = m"

definition matchesDeclaration :: "string \<Rightarrow> bool" where
  \<comment> \<open>\<open>t.match(/^(contract|interface|library)\s+\w+/)\<close>: the keyword, at least one white
      space, then a word character\<close>
  "matchesDeclaration t =
     list_ex (\<lambda>kw. startsWith t kw \<and>
                (let r = drop (length kw) t; r' = dropWhile isWhiteSpace r
                 in r' \<noteq> r \<and> (case r' of [] \<Rightarrow> False | c # _ \<Rightarrow> isWordChar c)))
       [''contract'', ''interface'', ''library'']"

definition matchesNumbered :: "string \<Rightarrow> bool" where
  \<comment> \<open>\<open>t.match(/^\d+\./)\<close>\<close>
  "matchesNumbered t =
     (case t of [] \<Rightarrow> False
      | c # _ \<Rightarrow> isDigit c \<and> (case dropWhile isDigit t of [] \<Rightarrow> False | d # _ \<Rightarrow> d = CHR ''.''))"

definition countChar :: "char \<Rightarrow> string \<Rightarrow> int" where
  \<comment> \<open>\<open>(line.match(/c/g) || []).length\<close>\<close>
  "countChar c line = int (length (filter (\<lambda>x. x = c) line))"

definition isSolidityLine :: "string \<Rightarrow> bool \<Rightarrow> bool" where
  "isSolidityLine trimmedLine foundSolidityStart =
     (startsWith trimmedLine ''// SPDX-License-Identifier:'' \<or>
      startsWith trimmedLine ''pragma solidity'' \<or>
      startsWith trimmedLine ''import '' \<or>
      matchesDeclaration trimmedLine \<or>
      (startsWith trimmedLine ''//'' \<and> foundSolidityStart) \<or>
      (foundSolidityStart \<and>
        (includesStr trimmedLine ''{'' \<or> includesStr trimmedLine ''}'' \<or>
         includesStr trimmedLine ''function'' \<or> includesStr trimmedLine ''modifier'' \<or>
         includesStr trimmedLine ''event'' \<or> includesStr trimmedLine ''struct'' \<or>
         includesStr trimmedLine ''enum'' \<or> includesStr trimmedLine ''mapping'' \<or>
         includesStr trimmedLine ''uint'' \<or> includesStr trimmedLine ''string'' \<or>
         includesStr trimmedLine ''bool'' \<or> includesStr trimmedLine ''address'' \<or>
         includesStr trimmedLine ''bytes'' \<or> trimmedLine = [])))"

definition isExplanation :: "string \<Rightarrow> bool" where
  "isExplanation trimmedLine =
     (length trimmedLine > 0 \<and> \<not> startsWith trimmedLine ''//'' \<and>
      (includesStr trimmedLine ''This contract'' \<or> includesStr trimmedLine ''The above'' \<or>
       includesStr trimmedLine ''This implementation'' \<or> includesStr trimmedLine ''Features:'' \<or>
       includesStr trimmedLine ''Usage:'' \<or> includesStr trimmedLine ''Note:'' \<or>
       includesStr trimmedLine ''Important:'' \<or> includesStr trimmedLine ''Remember:'' \<or>
       matchesNumbered trimmedLine \<or> startsWith trimmedLine ''- '' \<or>
       startsWith trimmedLine ''* '' \<or> includesStr trimmedLine ''explanation'' \<or>
       (includesStr trimmedLine ''deploy'' \<and> \<not> includesStr trimmedLine ''function'') \<or>
       (length (filter (\<lambda>x. x = CHR '' '') trimmedLine) + 1 > 8 \<and>
        \<not> includesStr trimmedLine ''('' \<and> \<not> includesStr trimmedLine ''{'')))"

text \<open>
  The loop over \<open>allLines\<close>. Its variables are the fields of \<open>loopState\<close>; \<open>lineStep\<close>
  is the body of the loop for one line, and says whether the loop goes on (a \<open>continue\<close>
  or the end of the body) or stops (the \<open>break\<close>).
\<close>

record loopState =
  foundSolidityStart :: bool
  contractDepth :: int
  inContract :: bool
  processedLines :: "string list"

datatype outcome = Continue loopState | Break loopState

definition lineStep :: "string \<Rightarrow> loopState \<Rightarrow> outcome" where
  "lineStep line st =
     (let trimmedLine = trim line in
      if \<not> foundSolidityStart st \<and> trimmedLine = [] then Continue st
      else
        let isSol = isSolidityLine trimmedLine (foundSolidityStart st);
            st1 = (if \<not> foundSolidityStart st \<and> isSol then st\<lparr>foundSolidityStart := True\<rparr> else st)
        in
        if \<not> isSol \<and> \<not> foundSolidityStart st1 then Continue st1
        else if foundSolidityStart st1 \<and> \<not> isSol \<and> isExplanation trimmedLine then Continue st1
        else
          let st2 = (if matchesDeclaration trimmedLine
                     then st1\<lparr>inContract := True, contractDepth := 0\<rparr> else st1)
          in
          if inContract st2
          then
            let st3 = st2\<lparr>contractDepth :=
                        contractDepth st2 + countChar (CHR ''{'') line - countChar (CHR ''}'') line\<rparr>
            in
            if contractDepth st3 = 0 \<and> includesStr trimmedLine ''}''
            then Break (st3\<lparr>processedLines := processedLines st3 @ [line]\<rparr>)
            else Continue (st3\<lparr>processedLines := processedLines st3 @ [line]\<rparr>)
          else Continue (st2\<lparr>processedLines := processedLines st2 @ [line]\<rparr>))"

fun processLoop :: "string list \<Rightarrow> loopState \<Rightarrow> loopState" where
  "processLoop [] st = st"
| "processLoop (line # rest) st =
     (case lineStep line st of Continue st' \<Rightarrow> processLoop rest st' | Break st' \<Rightarrow> st')"

definition initialState :: loopState where
  "initialState =
     \<lparr>foundSolidityStart = False, contractDepth = 0, inContract = False, processedLines = []\<rparr>"

definition cleanLines :: "string \<Rightarrow> string" where
  \<comment> \<open>the text after the pattern replacements and the loop over the lines\<close>
  "cleanLines code = join_nl (processedLines (processLoop (split_nl (stripText code)) initialState))"

definition SPDX :: string where
  "SPDX = ''SPDX-License-Identifier''"

definition PRAGMA :: string where
  "PRAGMA = ''pragma solidity''"

definition defaultLicense :: string where
  "defaultLicense = ''// SPDX-License-Identifier: MIT''"

definition defaultPragma :: string where
  "defaultPragma = ''pragma solidity ^0.8.19;''"

definition ensureLicense :: "string \<Rightarrow> string" where
  "ensureLicense cleaned =
     (if \<not> includesStr cleaned SPDX then defaultLicense @ [NL] @ cleaned else cleaned)"

fun findIndex :: "('a \<Rightarrow> bool) \<Rightarrow> 'a list \<Rightarrow> nat option" where
  \<comment> \<open>\<open>None\<close> is the \<open>-1\<close> of the source\<close>
  "findIndex P [] = None"
| "findIndex P (x # xs) = (if P x then Some 0 else map_option Suc (findIndex P xs))"

definition ensurePragma :: "string \<Rightarrow> string" where
  "ensurePragma cleaned =
     (if \<not> includesStr cleaned PRAGMA
      then
        (let lines = split_nl cleaned in
         case findIndex (\<lambda>line. includesStr line SPDX) lines of
           Some licenseIndex \<Rightarrow>
             join_nl (take (licenseIndex + 1) lines @ [defaultPragma] @ drop (licenseIndex + 1) lines)
         | None \<Rightarrow> cleaned)
      else cleaned)"

definition hasDeclaration :: "string \<Rightarrow> bool" where
  \<comment> \<open>the basic validation before the text is returned\<close>
  "hasDeclaration cleaned =
     (includesStr cleaned ''contract '' \<or> includesStr cleaned ''interface '' \<or>
      includesStr cleaned ''library '')"

fun collapseFrom :: "nat \<Rightarrow> string \<Rightarrow> string" where
  \<comment> \<open>\<open>s.replace(/\n{3,}/g, '\n\n')\<close>: of every run of line feeds the first two stay;
      the counter is the number of line feeds of the current run already copied\<close>
  "collapseFrom k [] = []"
| "collapseFrom k (c # cs) =
     (if c = NL then (if k < 2 then c # collapseFrom (Suc k) cs else collapseFrom k cs)
      else c # collapseFrom 0 cs)"

definition collapseBlank :: "string \<Rightarrow> string" where
  "collapseBlank s = collapseFrom 0 s"

definition validateAndCleanContract :: "string option \<Rightarrow> error + string" where
  \<comment> \<open>the argument is \<open>None\<close> when the value handed over is not a string\<close>
  "validateAndCleanContract contractCode =
     (case contractCode of
        None \<Rightarrow> Inl (Error ''Invalid contract code received from LLM'')
      | Some code \<Rightarrow>
          if code = [] then Inl (Error ''Invalid contract code received from LLM'')
          else
            let cleaned = ensurePragma (ensureLicense (cleanLines code)) in
            if \<not> hasDeclaration cleaned
            then Inl (Error ''Generated code does not contain a valid Solidity contract'')
            else Inr (trim (collapseBlank cleaned)))"

section \<open>The rate limiter: \<open>checkRateLimit\<close>\<close>

text \<open>
  \<open>rateLimitMap\<close> maps a client address to the times (milliseconds, \<open>Date.now()\<close>) of its
  admitted requests. The function returns its result and the map after the call.
\<close>

type_synonym rateLimitMap = "string \<rightharpoonup> int list"

definition getRequests :: "rateLimitMap \<Rightarrow> string \<Rightarrow> int list" where
  \<comment> \<open>\<open>rateLimitMap.get(ip) || []\<close>\<close>
  "getRequests m ip = (case m ip of None \<Rightarrow> [] | Some requests \<Rightarrow> requests)"

definition checkRateLimit :: "int \<Rightarrow> string \<Rightarrow> nat \<Rightarrow> int \<Rightarrow> rateLimitMap \<Rightarrow> bool \<times> rateLimitMap" where
  "checkRateLimit now ip limit window m =
     (let requests = getRequests m ip;
          validRequests = filter (\<lambda>time. now - time < window) requests
      in if length validRequests \<ge> limit then (False, m)
         else (True, m(ip \<mapsto> validRequests @ [now])))"

definition defaultLimit :: nat where
  "defaultLimit = 10"

definition defaultWindow :: int where
  "defaultWindow = 15 * 60 * 1000"

fun checkAll :: "int list \<Rightarrow> string \<Rightarrow> nat \<Rightarrow> int \<Rightarrow> rateLimitMap \<Rightarrow> bool list \<times> rateLimitMap" where
  \<comment> \<open>one call of \<open>checkRateLimit\<close> for each time of the list, in this order\<close>
  "checkAll [] ip limit window m = ([], m)"
| "checkAll (now # ts) ip limit window m =
     (let (ok, m') = checkRateLimit now ip limit window m;
          (oks, m'') = checkAll ts ip limit window m'
      in (ok # oks, m''))"

section \<open>The classifier: \<open>detectContractType\<close>\<close>

record typeConfig =
  keywordList :: "string list"
  name :: string

definition contractTypes :: "(string \<times> typeConfig) list" where
  \<comment> \<open>the entries of \<open>this.contractTypes\<close> in the order \<open>Object.entries\<close> lists them\<close>
  "contractTypes =
    [ (''erc20'', \<lparr>keywordList = [''token'', ''erc20'', ''coin'', ''currency'', ''payment'', ''fungible''],
                  name = ''ERC-20 Token Contract''\<rparr>),
      (''erc721'', \<lparr>keywordList = [''nft'', ''collectible'', ''art'', ''unique'', ''non-fungible'', ''erc721''],
                   name = ''ERC-721 NFT Contract''\<rparr>),
      (''multisig'', \<lparr>keywordList = [''multisig'', ''multi-signature'', ''wallet'', ''governance'', ''voting''],
                     name = ''Multi-Signature Wallet''\<rparr>),
      (''crowdfunding'', \<lparr>keywordList = [''crowdfunding'', ''fundraising'', ''ico'', ''investment'', ''raise''],
                         name = ''Crowdfunding Contract''\<rparr>),
      (''defi'', \<lparr>keywordList = [''defi'', ''lending'', ''staking'', ''yield'', ''liquidity'', ''farming''],
                 name = ''DeFi Protocol Contract''\<rparr>),
      (''governance'', \<lparr>keywordList = [''dao'', ''governance'', ''voting'', ''proposal'', ''democracy''],
                       name = ''DAO Governance Contract''\<rparr>),
      (''custom'', \<lparr>keywordList = [''custom'', ''specific'', ''tailored'', ''bespoke''],
                   name = ''Custom Smart Contract''\<rparr>) ]"

fun keywordLoop :: "string \<Rightarrow> string list \<Rightarrow> bool" where
  \<comment> \<open>the inner loop: true when it reaches the \<open>return type\<close>\<close>
  "keywordLoop text [] = False"
| "keywordLoop text (keyword # rest) = (if includesStr text keyword then True else keywordLoop text rest)"

fun typeLoop :: "string \<Rightarrow> (string \<times> typeConfig) list \<Rightarrow> string" where
  "typeLoop text [] = ''custom''"
| "typeLoop text ((type, config) # rest) =
     (if keywordLoop text (keywordList config) then type else typeLoop text rest)"

definition detectContractType :: "string \<Rightarrow> string" where
  "detectContractType requirements = typeLoop (toLowerCase requirements) contractTypes"

section \<open>The provider gateway: \<open>LLMService\<close>\<close>

record LLMService =
  provider :: string
  maxRetries :: nat
  timeout :: nat

definition orDefault :: "string option \<Rightarrow> string \<Rightarrow> string" where
  \<comment> \<open>\<open>v || d\<close> for a value that is a string or undefined: the empty string is falsy\<close>
  "orDefault v d = (case v of None \<Rightarrow> d | Some s \<Rightarrow> if s = [] then d else s)"

definition newLLMService :: "string option \<Rightarrow> LLMService" where
  \<comment> \<open>the constructor; the argument is \<open>process.env.LLM_PROVIDER\<close>\<close>
  "newLLMService envProvider =
     \<lparr>provider = orDefault envProvider ''openai'', maxRetries = 3, timeout = 30000\<rparr>"

text \<open>
  The provider is outside the program. One HTTP POST either throws (network failure,
  time-out, error status) with a message, or gives a response whose list of
  \<open>choices\<close> (OpenAI) or \<open>content\<close> (Anthropic) is absent or present; the elements of a
  list are taken to be objects of the provider's shape, and each stands here for the text
  it carries (\<open>message.content\<close>, \<open>text\<close>), \<open>None\<close> when that is not a string.
  A backend gives the outcome of the POST of each attempt. The prompts, \<open>maxTokens\<close> and
  \<open>temperature\<close> only go into the body of the POST, so they do not appear. An \<open>event\<close> is
  what a run of \<open>generateContract\<close> does that can be seen from outside: the start of an
  attempt (its log line), a POST, a wait in milliseconds.
\<close>

datatype httpResult = HttpError string | HttpResponse "string option list option"

type_synonym backend = "nat \<Rightarrow> httpResult"

definition callOpenAI :: "httpResult \<Rightarrow> error + string option" where
  "callOpenAI r =
     (case r of
        HttpError m \<Rightarrow> Inl (Error m)
      | HttpResponse None \<Rightarrow> Inl (Error ''Invalid response from OpenAI API'')
      | HttpResponse (Some []) \<Rightarrow> Inl (Error ''Invalid response from OpenAI API'')
      | HttpResponse (Some (c # _)) \<Rightarrow> Inr c)"

definition callAnthropic :: "httpResult \<Rightarrow> error + string option" where
  "callAnthropic r =
     (case r of
        HttpError m \<Rightarrow> Inl (Error m)
      | HttpResponse None \<Rightarrow> Inl (Error ''Invalid response from Anthropic API'')
      | HttpResponse (Some []) \<Rightarrow> Inl (Error ''Invalid response from Anthropic API'')
      | HttpResponse (Some (c # _)) \<Rightarrow> Inr c)"

datatype event = Attempt nat | HttpPost nat | Delay nat

definition attemptOnce :: "LLMService \<Rightarrow> backend \<Rightarrow> nat \<Rightarrow> (error + string option) \<times> event list" where
  \<comment> \<open>the body of the \<open>try\<close> block of one attempt\<close>
  "attemptOnce svc b attempt =
     (if provider svc = ''openai'' then (callOpenAI (b attempt), [Attempt attempt, HttpPost attempt])
      else if provider svc = ''anthropic'' then (callAnthropic (b attempt), [Attempt attempt, HttpPost attempt])
      else (Inl (Error (''Unsupported LLM provider: '' @ provider svc)), [Attempt attempt]))"

function generateLoop :: "LLMService \<Rightarrow> backend \<Rightarrow> nat \<Rightarrow> (error + string option) \<times> event list" where
  \<comment> \<open>\<open>for (attempt; attempt <= this.maxRetries; attempt++)\<close>; falling out of the loop
      returns \<open>undefined\<close>\<close>
  "generateLoop svc b attempt =
     (if attempt \<le> maxRetries svc
      then
        (case attemptOnce svc b attempt of
           (Inr result, evs) \<Rightarrow> (Inr result, evs)
         | (Inl e, evs) \<Rightarrow>
             if attempt = maxRetries svc
             then (Inl (Error (''LLM generation failed after '' @ toString (maxRetries svc) @
                               '' attempts: '' @ errorMessage e)), evs)
             else
               (let (r, evs') = generateLoop svc b (attempt + 1)
                in (r, evs @ [Delay (2 ^ attempt * 1000)] @ evs')))
      else (Inr None, []))"
  by pat_completeness auto
termination
  by (relation "measure (\<lambda>(svc, b, attempt). maxRetries svc + 1 - attempt)") auto

declare generateLoop.simps [simp del]

definition generateContract :: "LLMService \<Rightarrow> backend \<Rightarrow> (error + string option) \<times> event list" where
  "generateContract svc b = generateLoop svc b 1"


text \<open>Four stub providers: one that always answers with a text, one whose request always
  throws, one that fails before a given attempt and answers from it on, and one whose
  response always has an empty list of choices.\<close>

definition answering :: "string \<Rightarrow> backend" where
  "answering text = (\<lambda>k. HttpResponse (Some [Some text]))"

definition failing :: "string \<Rightarrow> backend" where
  "failing msg = (\<lambda>k. HttpError msg)"

definition failingUntil :: "nat \<Rightarrow> string \<Rightarrow> string \<Rightarrow> backend" where
  "failingUntil n msg text = (\<lambda>k. if k < n then HttpError msg else HttpResponse (Some [Some text]))"

definition emptyEnvelope :: backend where
  "emptyEnvelope = (\<lambda>k. HttpResponse (Some []))"

section \<open>The request handler\<close>

record requestBody =
  requirements :: "string option"
  contractType :: "string option"

record request =
  httpMethod :: string
  xForwardedFor :: "string option"
  remoteAddress :: "string option"
  body :: "requestBody option"

datatype response =
    EndResponse nat
  | ErrorResponse nat string string "string option"
  | SuccessResponse string string "string option" string

text \<open>
  \<open>requirements\<close> is \<open>None\<close> when the field is absent or not a string, \<open>contractType\<close> is
  \<open>None\<close> when absent; \<open>body\<close> is \<open>None\<close> when the request has none. An error response is
  status, message, type and details; a success response is the contract, the contract type,
  and of the metadata the provider name and the requirements. The prompts that
  \<open>getSystemPrompt\<close> and \<open>generateUserPrompt\<close> compose only reach the provider, whose answer
  is the backend's; \<open>options\<close> is taken to be an object or absent. \<open>now\<close> is \<open>Date.now()\<close>.
  The handler returns the response, the rate limiter's map after the request and the events
  of the gateway.
\<close>

definition clientIp :: "request \<Rightarrow> string" where
  "clientIp req =
     orDefault (xForwardedFor req) (orDefault (remoteAddress req) ''unknown'')"

definition handlerBody :: "string option \<Rightarrow> backend \<Rightarrow> requestBody option \<Rightarrow> (error + response) \<times> event list" where
  \<comment> \<open>the \<open>try\<close> block behind the rate limiter; \<open>Inl\<close> is a thrown error\<close>
  "handlerBody envProvider b bd =
     (case bd of
        None \<Rightarrow> (Inl (TypeError ''Cannot destructure property 'requirements' of 'req.body' as it is undefined.''), [])
      | Some rb \<Rightarrow>
          (case requirements rb of
             None \<Rightarrow> (Inr (ErrorResponse 400 ''Requirements must be at least 10 characters long''
                              ''ValidationError'' None), [])
           | Some reqs \<Rightarrow>
               if length reqs < 10
               then (Inr (ErrorResponse 400 ''Requirements must be at least 10 characters long''
                              ''ValidationError'' None), [])
               else if length reqs > 5000
               then (Inr (ErrorResponse 400 ''Requirements must not exceed 5000 characters''
                              ''ValidationError'' None), [])
               else
                 let llmService = newLLMService envProvider;
                     detectedType = orDefault (contractType rb) (detectContractType reqs);
                     (generated, evs) = generateContract llmService b
                 in
                 (case generated of
                    Inl e \<Rightarrow> (Inl e, evs)
                  | Inr generatedContract \<Rightarrow>
                      (case validateAndCleanContract generatedContract of
                         Inl e \<Rightarrow> (Inl e, evs)
                       | Inr cleanedContract \<Rightarrow>
                           (Inr (SuccessResponse cleanedContract detectedType envProvider reqs), evs)))))"

definition handler :: "string option \<Rightarrow> backend \<Rightarrow> int \<Rightarrow> rateLimitMap \<Rightarrow> request \<Rightarrow> response \<times> rateLimitMap \<times> event list" where
  "handler envProvider b now m req =
     (if httpMethod req = ''OPTIONS'' then (EndResponse 200, m, [])
      else if httpMethod req \<noteq> ''POST''
      then (ErrorResponse 405 ''Method not allowed'' ''MethodNotAllowed'' None, m, [])
      else
        let (admitted, m') = checkRateLimit now (clientIp req) defaultLimit defaultWindow m in
        if \<not> admitted
        then (ErrorResponse 429 ''Too many requests. Please try again later.''
                ''RateLimitExceeded'' None, m', [])
        else
          (case handlerBody envProvider b (body req) of
             (Inr resp, evs) \<Rightarrow> (resp, m', evs)
           | (Inl e, evs) \<Rightarrow>
               (ErrorResponse 500 ''Contract generation failed'' (errorName e) (Some (errorMessage e)),
                m', evs)))"

section \<open>The loop over the lines, line by line\<close>

text \<open>
  For the proofs about a second run, the loop of \<open>validateAndCleanContract\<close> is restated
  without its record of variables: \<open>keepsLine\<close> says whether a line is pushed, \<open>declStep\<close>
  what a pushed line does to \<open>inContract\<close> and \<open>contractDepth\<close>, \<open>breaksAt\<close> whether the loop
  stops behind it, and \<open>pushedLines\<close> is the list of the lines the loop pushes. That they
  agree with \<open>lineStep\<close> and \<open>processLoop\<close> is proved below. \<open>simLines\<close> relates two lists
  of lines when the second is the first with some blank lines left out and white space
  taken away at the ends of lines. \<open>testPattern\<close> says whether a pattern has a match
  somewhere in a text, \<open>somePatternMatches\<close> whether one of the deleted patterns has.
\<close>

definition keepsLine :: "bool \<Rightarrow> string \<Rightarrow> bool" where
  "keepsLine found line =
     (isSolidityLine (trim line) found \<or> (found \<and> \<not> isExplanation (trim line)))"

definition declStep :: "string \<Rightarrow> bool \<times> int \<Rightarrow> bool \<times> int" where
  "declStep line c =
     (let i = (fst c \<or> matchesDeclaration (trim line));
          d = (if matchesDeclaration (trim line) then 0 else snd c)
      in (i, if i then d + countChar (CHR ''{'') line - countChar (CHR ''}'') line else d))"

definition breaksAt :: "string \<Rightarrow> bool \<times> int \<Rightarrow> bool" where
  "breaksAt line c =
     (fst (declStep line c) \<and> snd (declStep line c) = 0 \<and> includesStr (trim line) ''}'')"

fun pushedLines :: "bool \<Rightarrow> bool \<times> int \<Rightarrow> string list \<Rightarrow> string list" where
  "pushedLines found c [] = []"
| "pushedLines found c (line # rest) =
     (if keepsLine found line
      then line # (if breaksAt line c then [] else pushedLines True (declStep line c) rest)
      else pushedLines found c rest)"

inductive simLines :: "string list \<Rightarrow> string list \<Rightarrow> bool" where
  simNil: "simLines [] []"
| simCons: "trim l = trim l' \<Longrightarrow> length l' \<le> length l \<Longrightarrow> simLines ls ls' \<Longrightarrow>
            simLines (l # ls) (l' # ls')"
| simDrop: "trim l = [] \<Longrightarrow> simLines ls ls' \<Longrightarrow> simLines (l # ls) ls'"

fun matchesIn :: "bool \<Rightarrow> atom list \<Rightarrow> char option \<Rightarrow> string \<Rightarrow> bool" where
  "matchesIn ic pat prev [] = (matchHere ic pat prev [] \<noteq> None)"
| "matchesIn ic pat prev (x # xs) =
     (if matchHere ic pat prev (x # xs) \<noteq> None then True else matchesIn ic pat (Some x) xs)"

definition testPattern :: "bool \<times> atom list \<Rightarrow> string \<Rightarrow> bool" where
  "testPattern p s = matchesIn (fst p) (snd p) None s"

definition somePatternMatches :: "string \<Rightarrow> bool" where
  \<comment> \<open>one of the patterns that \<open>validateAndCleanContract\<close> deletes occurs in the text\<close>
  "somePatternMatches s = list_ex (\<lambda>p. testPattern p s) (fenceSolidity # fence # explanatoryPatterns)"

section \<open>Properties of the rate limiter\<close>

lemma getRequests_upd: "getRequests (m(ip \<mapsto> r)) ip = r"
  by (simp add: getRequests_def)

lemma checkRateLimit_admit:
  "length (filter (\<lambda>time. now - time < window) (getRequests m ip)) < limit \<Longrightarrow>
   checkRateLimit now ip limit window m =
     (True, m(ip \<mapsto> filter (\<lambda>time. now - time < window) (getRequests m ip) @ [now]))"
  by (simp add: checkRateLimit_def Let_def)

lemma checkRateLimit_reject:
  "limit \<le> length (filter (\<lambda>time. now - time < window) (getRequests m ip)) \<Longrightarrow>
   checkRateLimit now ip limit window m = (False, m)"
  by (simp add: checkRateLimit_def Let_def)

lemma checkAll_append:
  "checkAll (as @ bs) ip limit window m =
     (let (oa, m') = checkAll as ip limit window m;
          (ob, m'') = checkAll bs ip limit window m'
      in (oa @ ob, m''))"
  by (induction as arbitrary: m) (simp_all add: Let_def split: prod.splits)

lemma checkAll_admitted:
  assumes "\<forall>t\<in>set (getRequests m ip).
             (\<forall>now\<in>set ts. now - t < window) \<or> (\<forall>now\<in>set ts. \<not> now - t < window)"
    and "\<forall>a\<in>set ts. \<forall>b\<in>set ts. a - b < window"
    and "length (filter (\<lambda>t. \<forall>now\<in>set ts. now - t < window) (getRequests m ip)) + length ts \<le> limit"
  shows "fst (checkAll ts ip limit window m) = replicate (length ts) True \<and>
         getRequests (snd (checkAll ts ip limit window m)) ip =
           (if ts = [] then getRequests m ip
            else filter (\<lambda>t. \<forall>now\<in>set ts. now - t < window) (getRequests m ip) @ ts)"
  using assms
proof (induction ts arbitrary: m)
  case Nil
  then show ?case by simp
next
  case (Cons now ts)
  let ?R = "getRequests m ip"
  let ?live = "\<lambda>t. \<forall>n\<in>set (now # ts). n - t < window"
  have same: "filter (\<lambda>time. now - time < window) ?R = filter ?live ?R"
    using Cons.prems(1) by (intro filter_cong) auto
  have lt: "length (filter (\<lambda>time. now - time < window) ?R) < limit"
    using Cons.prems(3) same by simp
  define m' where "m' = m(ip \<mapsto> filter ?live ?R @ [now])"
  have step: "checkRateLimit now ip limit window m = (True, m')"
    using checkRateLimit_admit[OF lt] same by (simp add: m'_def)
  have R': "getRequests m' ip = filter ?live ?R @ [now]"
    unfolding m'_def by (rule getRequests_upd)
  have all_live: "\<forall>t\<in>set (getRequests m' ip). \<forall>n\<in>set ts. n - t < window"
    unfolding R' using Cons.prems(2) by auto
  have p1: "\<forall>t\<in>set (getRequests m' ip).
             (\<forall>n\<in>set ts. n - t < window) \<or> (\<forall>n\<in>set ts. \<not> n - t < window)"
    using all_live by blast
  have p2: "\<forall>a\<in>set ts. \<forall>b\<in>set ts. a - b < window"
    using Cons.prems(2) by simp
  have fl: "filter (\<lambda>t. \<forall>n\<in>set ts. n - t < window) (getRequests m' ip) = getRequests m' ip"
    using all_live by (simp only: filter_id_conv)
  have p3: "length (filter (\<lambda>t. \<forall>n\<in>set ts. n - t < window) (getRequests m' ip)) + length ts \<le> limit"
    using Cons.prems(3) by (simp only: fl R') simp
  note IH = Cons.IH[OF p1 p2 p3]
  obtain oks m'' where ca: "checkAll ts ip limit window m' = (oks, m'')"
    by (cases "checkAll ts ip limit window m'") blast
  have oks: "oks = replicate (length ts) True"
    using IH ca by simp
  have R'': "getRequests m'' ip = (if ts = [] then getRequests m' ip else getRequests m' ip @ ts)"
    using IH ca by (simp only: fl snd_conv)
  have all: "checkAll (now # ts) ip limit window m = (True # oks, m'')"
    using step ca by simp
  show ?case
    unfolding all using oks R'' R' by simp
qed

text \<open>
  Claim C4. One client address issues a sequence of checks whose times lie pairwise less
  than one window apart, and whatever the map holds for it is older than the window at
  each of them. If the sequence is not longer than the limit, every check returns true;
  the check after \<open>limit\<close> admitted ones, still in the window, returns false; and a
  check at a time when every recorded time is a window or more old returns true again
  (for a positive limit). The defaults of the source are limit 10 and 15 minutes.
\<close>

theorem rate_limit_window:
  "((\<forall>t\<in>set (getRequests m ip). \<forall>now\<in>set ts. \<not> now - t < window) \<and>
    (\<forall>a\<in>set ts. \<forall>b\<in>set ts. a - b < window) \<and> length ts \<le> limit
      \<longrightarrow> fst (checkAll ts ip limit window m) = replicate (length ts) True) \<and>
   ((\<forall>t\<in>set (getRequests m ip). \<forall>now\<in>set (ts @ [x]). \<not> now - t < window) \<and>
    (\<forall>a\<in>set (ts @ [x]). \<forall>b\<in>set (ts @ [x]). a - b < window) \<and> length ts = limit
      \<longrightarrow> fst (checkAll (ts @ [x]) ip limit window m) = replicate limit True @ [False]) \<and>
   ((\<forall>t\<in>set (getRequests m ip). \<not> later - t < window) \<and> 0 < limit
      \<longrightarrow> fst (checkRateLimit later ip limit window m) = True)"
proof (intro conjI impI)
  assume h: "(\<forall>t\<in>set (getRequests m ip). \<forall>now\<in>set ts. \<not> now - t < window) \<and>
    (\<forall>a\<in>set ts. \<forall>b\<in>set ts. a - b < window) \<and> length ts \<le> limit"
  show "fst (checkAll ts ip limit window m) = replicate (length ts) True"
  proof (cases "ts = []")
    case True
    then show ?thesis by simp
  next
    case False
    have none: "filter (\<lambda>t. \<forall>now\<in>set ts. now - t < window) (getRequests m ip) = []"
      using h False by (auto simp: filter_empty_conv)
    have p1: "\<forall>t\<in>set (getRequests m ip).
             (\<forall>now\<in>set ts. now - t < window) \<or> (\<forall>now\<in>set ts. \<not> now - t < window)"
      using h by blast
    have p3: "length (filter (\<lambda>t. \<forall>now\<in>set ts. now - t < window) (getRequests m ip)) + length ts \<le> limit"
      using h by (simp only: none) simp
    from checkAll_admitted[OF p1 _ p3] h show ?thesis by blast
  qed
next
  assume h: "(\<forall>t\<in>set (getRequests m ip). \<forall>now\<in>set (ts @ [x]). \<not> now - t < window) \<and>
    (\<forall>a\<in>set (ts @ [x]). \<forall>b\<in>set (ts @ [x]). a - b < window) \<and> length ts = limit"
  show "fst (checkAll (ts @ [x]) ip limit window m) = replicate limit True @ [False]"
  proof (cases "ts = []")
    case True
    then have "limit = 0" using h by simp
    then have "checkRateLimit x ip limit window m = (False, m)"
      by (simp add: checkRateLimit_reject)
    then show ?thesis using True \<open>limit = 0\<close> by simp
  next
    case False
    obtain oks m' where ca: "checkAll ts ip limit window m = (oks, m')"
      by (cases "checkAll ts ip limit window m") blast
    have p1: "\<forall>t\<in>set (getRequests m ip).
               (\<forall>now\<in>set ts. now - t < window) \<or> (\<forall>now\<in>set ts. \<not> now - t < window)"
      using h by auto
    have p2: "\<forall>a\<in>set ts. \<forall>b\<in>set ts. a - b < window"
      using h by auto
    have none: "filter (\<lambda>t. \<forall>now\<in>set ts. now - t < window) (getRequests m ip) = []"
      using h False by (auto simp: filter_empty_conv)
    have p3: "length (filter (\<lambda>t. \<forall>now\<in>set ts. now - t < window) (getRequests m ip)) + length ts \<le> limit"
      using h by (simp only: none) simp
    note A = checkAll_admitted[OF p1 p2 p3]
    have oks: "oks = replicate limit True"
      using A ca h by simp
    have "getRequests m' ip = ts"
      using A ca False none by simp
    moreover have "filter (\<lambda>time. x - time < window) ts = ts"
      using h by (auto simp: filter_id_conv)
    ultimately have full: "limit \<le> length (filter (\<lambda>time. x - time < window) (getRequests m' ip))"
      using h by simp
    have last: "checkRateLimit x ip limit window m' = (False, m')"
      by (rule checkRateLimit_reject[OF full])
    show ?thesis
      by (simp add: checkAll_append ca last oks)
  qed
next
  assume h: "(\<forall>t\<in>set (getRequests m ip). \<not> later - t < window) \<and> 0 < limit"
  then have "filter (\<lambda>time. later - time < window) (getRequests m ip) = []"
    by (auto simp: filter_empty_conv)
  then have "length (filter (\<lambda>time. later - time < window) (getRequests m ip)) < limit"
    using h by simp
  from checkRateLimit_admit[OF this] show "fst (checkRateLimit later ip limit window m) = True"
    by simp
qed

theorem rate_limit_window_witness:
  "fst (checkAll [0, 1, 2, 3, 4, 5, 6, 7, 8, 9] ''10.0.0.1'' defaultLimit defaultWindow Map.empty)
     = replicate 10 True \<and>
   fst (checkAll ([0, 1, 2, 3, 4, 5, 6, 7, 8, 9] @ [899999]) ''10.0.0.1'' defaultLimit defaultWindow Map.empty)
     = replicate 10 True @ [False] \<and>
   fst (checkRateLimit 900009 ''10.0.0.1'' defaultLimit defaultWindow
         (Map.empty(''10.0.0.1'' \<mapsto> [0, 1, 2, 3, 4, 5, 6, 7, 8, 9]))) = True"
proof -
  let ?ts = "[0, 1, 2, 3, 4, 5, 6, 7, 8, 9] :: int list"
  let ?m = "Map.empty :: rateLimitMap"
  let ?m2 = "?m(''10.0.0.1'' \<mapsto> ?ts)"
  have h1: "(\<forall>t\<in>set (getRequests ?m ''10.0.0.1''). \<forall>now\<in>set ?ts. \<not> now - t < defaultWindow) \<and>
    (\<forall>a\<in>set ?ts. \<forall>b\<in>set ?ts. a - b < defaultWindow) \<and> length ?ts \<le> defaultLimit"
    by (simp add: getRequests_def defaultWindow_def defaultLimit_def)
  have h2: "(\<forall>t\<in>set (getRequests ?m ''10.0.0.1''). \<forall>now\<in>set (?ts @ [899999]). \<not> now - t < defaultWindow) \<and>
    (\<forall>a\<in>set (?ts @ [899999]). \<forall>b\<in>set (?ts @ [899999]). a - b < defaultWindow) \<and> length ?ts = defaultLimit"
    by (simp add: getRequests_def defaultWindow_def defaultLimit_def)
  have h3: "(\<forall>t\<in>set (getRequests ?m2 ''10.0.0.1''). \<not> 900009 - t < defaultWindow) \<and> 0 < defaultLimit"
    by (simp add: getRequests_def defaultWindow_def defaultLimit_def)
  have d: "defaultLimit = 10" by (simp add: defaultLimit_def)
  from rate_limit_window[of ?m "''10.0.0.1''" ?ts defaultWindow defaultLimit 899999 900009]
    rate_limit_window[of ?m2 "''10.0.0.1''" ?ts defaultWindow defaultLimit 899999 900009] h1 h2 h3
  show ?thesis by (simp only: d) simp
qed

text \<open>
  Claim C9. A call of \<open>checkRateLimit\<close> that returns false leaves the map as it was: the
  record of the address gets no new time (the pruned list is not even stored).
\<close>

theorem rejected_request_not_recorded:
  "fst (checkRateLimit now ip limit window m) = False \<Longrightarrow>
   snd (checkRateLimit now ip limit window m) = m \<and>
   getRequests (snd (checkRateLimit now ip limit window m)) ip = getRequests m ip"
  by (simp add: checkRateLimit_def Let_def split: if_splits)

theorem rejected_request_not_recorded_witness:
  "fst (checkRateLimit 5 ''10.0.0.1'' 2 10 (Map.empty(''10.0.0.1'' \<mapsto> [0, 3]))) = False \<and>
   snd (checkRateLimit 5 ''10.0.0.1'' 2 10 (Map.empty(''10.0.0.1'' \<mapsto> [0, 3])))
     = Map.empty(''10.0.0.1'' \<mapsto> [0, 3])"
proof -
  have h: "fst (checkRateLimit 5 ''10.0.0.1'' 2 10 (Map.empty(''10.0.0.1'' \<mapsto> [0, 3]))) = False"
    by (simp add: checkRateLimit_def getRequests_def)
  from rejected_request_not_recorded[OF h] h show ?thesis by simp
qed

section \<open>Properties of the classifier\<close>

lemma keywordLoop_iff: "keywordLoop text ks \<longleftrightarrow> (\<exists>k\<in>set ks. includesStr text k)"
  by (induction ks) auto

lemma typeLoop_first:
  "i < length cs \<Longrightarrow> keywordLoop text (keywordList (snd (cs ! i))) \<Longrightarrow>
   \<forall>j<i. \<not> keywordLoop text (keywordList (snd (cs ! j))) \<Longrightarrow>
   typeLoop text cs = fst (cs ! i)"
proof (induction cs arbitrary: i)
  case Nil
  then show ?case by simp
next
  case (Cons c cs)
  obtain ty cfg where c: "c = (ty, cfg)" by (cases c)
  show ?case
  proof (cases i)
    case 0
    then show ?thesis using Cons.prems c by simp
  next
    case (Suc i')
    have "\<not> keywordLoop text (keywordList cfg)"
      using Cons.prems(3) Suc c by force
    moreover have "typeLoop text cs = fst (cs ! i')"
    proof (rule Cons.IH)
      show "i' < length cs" using Cons.prems(1) Suc by simp
      show "keywordLoop text (keywordList (snd (cs ! i')))" using Cons.prems(2) Suc by simp
      show "\<forall>j<i'. \<not> keywordLoop text (keywordList (snd (cs ! j)))"
        using Cons.prems(3) Suc by force
    qed
    ultimately show ?thesis using c Suc by simp
  qed
qed

lemma typeLoop_none:
  "\<forall>c\<in>set cs. \<not> keywordLoop text (keywordList (snd c)) \<Longrightarrow> typeLoop text cs = ''custom''"
  by (induction cs) auto

text \<open>
  Claim C2. \<open>detectContractType\<close> lower-cases the requirements and goes through the
  categories in the declared order erc20, erc721, multisig, crowdfunding, defi, governance,
  custom. It returns the first category one of whose keywords is a substring of the lowered
  text: a category with a match wins as soon as no category before it has one, however many
  later categories or keywords match. With no match at all it returns custom.
\<close>

theorem detectContractType_first_match:
  "map fst contractTypes =
     [''erc20'', ''erc721'', ''multisig'', ''crowdfunding'', ''defi'', ''governance'', ''custom''] \<and>
   (\<forall>i < length contractTypes.
      (\<exists>k\<in>set (keywordList (snd (contractTypes ! i))). includesStr (toLowerCase r) k) \<and>
      (\<forall>j<i. \<forall>k\<in>set (keywordList (snd (contractTypes ! j))). \<not> includesStr (toLowerCase r) k)
      \<longrightarrow> detectContractType r = fst (contractTypes ! i)) \<and>
   ((\<forall>c\<in>set contractTypes. \<forall>k\<in>set (keywordList (snd c)). \<not> includesStr (toLowerCase r) k)
      \<longrightarrow> detectContractType r = ''custom'')"
proof (intro conjI allI impI)
  show "map fst contractTypes =
     [''erc20'', ''erc721'', ''multisig'', ''crowdfunding'', ''defi'', ''governance'', ''custom'']"
    by (simp add: contractTypes_def)
next
  fix i
  assume i: "i < length contractTypes"
    and h: "(\<exists>k\<in>set (keywordList (snd (contractTypes ! i))). includesStr (toLowerCase r) k) \<and>
      (\<forall>j<i. \<forall>k\<in>set (keywordList (snd (contractTypes ! j))). \<not> includesStr (toLowerCase r) k)"
  show "detectContractType r = fst (contractTypes ! i)"
    unfolding detectContractType_def
    using i h by (intro typeLoop_first) (simp_all add: keywordLoop_iff)
next
  assume "\<forall>c\<in>set contractTypes. \<forall>k\<in>set (keywordList (snd c)). \<not> includesStr (toLowerCase r) k"
  then show "detectContractType r = ''custom''"
    unfolding detectContractType_def
    by (intro typeLoop_none) (simp add: keywordLoop_iff)
qed

lemma low1: "toLowerCase ''A Governance system for the party'' = ''a governance system for the party''"
  by code_simp

lemma low2: "toLowerCase ''Build something NICE'' = ''build something nice''"
  by code_simp

theorem detectContractType_first_match_witness:
  "detectContractType ''A Governance system for the party'' = ''erc721'' \<and>
   includesStr (toLowerCase ''A Governance system for the party'') ''art'' \<and>
   includesStr (toLowerCase ''A Governance system for the party'') ''governance'' \<and>
   detectContractType ''Build something NICE'' = ''custom''"
proof -
  let ?r = "''A Governance system for the party''"
  have i: "(1::nat) < length contractTypes"
    by (simp add: contractTypes_def)
  have h1: "(\<exists>k\<in>set (keywordList (snd (contractTypes ! 1))). includesStr (toLowerCase ?r) k) \<and>
      (\<forall>j<(1::nat). \<forall>k\<in>set (keywordList (snd (contractTypes ! j))). \<not> includesStr (toLowerCase ?r) k)"
    unfolding low1 by code_simp
  have h2: "\<forall>c\<in>set contractTypes. \<forall>k\<in>set (keywordList (snd c)).
              \<not> includesStr (toLowerCase ''Build something NICE'') k"
    unfolding low2 by code_simp
  have t: "fst (contractTypes ! 1) = ''erc721''"
    by (simp add: contractTypes_def)
  have a: "includesStr (toLowerCase ?r) ''art''" unfolding low1 by code_simp
  have g: "includesStr (toLowerCase ?r) ''governance''" unfolding low1 by code_simp
  have "detectContractType ?r = fst (contractTypes ! 1)"
    by (rule detectContractType_first_match[of ?r, THEN conjunct2, THEN conjunct1, rule_format, OF i h1])
  moreover have "detectContractType ''Build something NICE'' = ''custom''"
    by (rule detectContractType_first_match[of "''Build something NICE''", THEN conjunct2, THEN conjunct2, THEN mp, OF h2])
  ultimately show ?thesis using a g t by (simp only: simp_thms)
qed

section \<open>Properties of the provider gateway\<close>

lemma generateLoop_fail_last:
  assumes "attemptOnce svc b (maxRetries svc) = (Inl e, evs)"
  shows "generateLoop svc b (maxRetries svc) =
           (Inl (Error (''LLM generation failed after '' @ toString (maxRetries svc) @
                        '' attempts: '' @ errorMessage e)), evs)"
  using assms by (subst generateLoop.simps) simp

lemma generateLoop_fail_step:
  assumes "attemptOnce svc b a = (Inl e, evs)" "a < maxRetries svc"
  shows "generateLoop svc b a =
           (fst (generateLoop svc b (Suc a)),
            evs @ [Delay (2 ^ a * 1000)] @ snd (generateLoop svc b (Suc a)))"
  using assms by (subst generateLoop.simps) (simp split: prod.splits)

lemma generateLoop_success:
  assumes "attemptOnce svc b a = (Inr t, evs)" "a \<le> maxRetries svc"
  shows "generateLoop svc b a = (Inr t, evs)"
  using assms by (subst generateLoop.simps) simp

lemma generateLoop_all_fail:
  assumes "\<forall>k. a \<le> k \<and> k \<le> maxRetries svc \<longrightarrow> attemptOnce svc b k = (Inl (e k), ev k)"
    and "a \<le> maxRetries svc"
  shows "generateLoop svc b a =
           (Inl (Error (''LLM generation failed after '' @ toString (maxRetries svc) @
                        '' attempts: '' @ errorMessage (e (maxRetries svc)))),
            concat (map (\<lambda>k. ev k @ (if k < maxRetries svc then [Delay (2 ^ k * 1000)] else []))
                      [a..<Suc (maxRetries svc)]))"
  using assms
proof (induction "maxRetries svc - a" arbitrary: a)
  case 0
  then have a: "a = maxRetries svc" by simp
  have f: "attemptOnce svc b (maxRetries svc) = (Inl (e (maxRetries svc)), ev (maxRetries svc))"
    using "0.prems" by simp
  show ?case
    unfolding a generateLoop_fail_last[OF f] by simp
next
  case (Suc d)
  then have lt: "a < maxRetries svc" by simp
  have f: "attemptOnce svc b a = (Inl (e a), ev a)"
    using Suc.prems by simp
  have IH: "generateLoop svc b (Suc a) =
           (Inl (Error (''LLM generation failed after '' @ toString (maxRetries svc) @
                        '' attempts: '' @ errorMessage (e (maxRetries svc)))),
            concat (map (\<lambda>k. ev k @ (if k < maxRetries svc then [Delay (2 ^ k * 1000)] else []))
                      [Suc a..<Suc (maxRetries svc)]))"
    using Suc.hyps(2) Suc.prems lt by (intro Suc.hyps(1)) auto
  have u: "[a..<Suc (maxRetries svc)] = a # [Suc a..<Suc (maxRetries svc)]"
    using lt by (simp add: upt_conv_Cons)
  show ?case
    unfolding generateLoop_fail_step[OF f lt] u IH using lt by simp
qed

lemma attemptOnce_supported_fail:
  assumes "provider svc = ''openai'' \<or> provider svc = ''anthropic''"
    and "(\<exists>msg. b k = HttpError msg) \<or> b k = HttpResponse None \<or> b k = HttpResponse (Some [])"
  shows "attemptOnce svc b k =
           (Inl (Error (case b k of HttpError msg \<Rightarrow> msg
                        | HttpResponse _ \<Rightarrow>
                            ''Invalid response from '' @
                            (if provider svc = ''openai'' then ''OpenAI'' else ''Anthropic'') @ '' API'')),
            [Attempt k, HttpPost k])"
  using assms by (auto simp: attemptOnce_def callOpenAI_def callAnthropic_def)

lemma attemptOnce_supported_answer:
  assumes "provider svc = ''openai'' \<or> provider svc = ''anthropic''"
    and "b k = HttpResponse (Some (c # cs))"
  shows "attemptOnce svc b k = (Inr c, [Attempt k, HttpPost k])"
  using assms by (auto simp: attemptOnce_def callOpenAI_def callAnthropic_def)

lemma attemptOnce_unsupported:
  assumes "provider svc \<noteq> ''openai''" and "provider svc \<noteq> ''anthropic''"
  shows "attemptOnce svc b k =
           (Inl (Error (''Unsupported LLM provider: '' @ provider svc)), [Attempt k])"
  using assms by (simp add: attemptOnce_def)

text \<open>
  Claim C3. Let the service use one of the two supported providers. When the provider fails
  on every attempt (the request throws, or the response has no list of choices, or an empty
  one), \<open>generateContract\<close> makes the attempts 1 to \<open>maxRetries\<close> (3 in every service the
  constructor builds), each with one POST, waits \<open>2 ^ attempt\<close> seconds after each failed
  attempt but the last and before the next one (2000 and 4000 milliseconds for three
  attempts), and throws an error whose message ends with the message of the last failure.
  When attempts 1 and 2 fail and attempt 3 answers, it returns the text of attempt 3 after
  the same waits. With any other provider name every attempt fails before a POST is made,
  with the same waits.
\<close>

theorem generateContract_retry:
  "((provider svc = ''openai'' \<or> provider svc = ''anthropic'') \<and> 1 \<le> maxRetries svc \<and>
    (\<forall>k. 1 \<le> k \<and> k \<le> maxRetries svc \<longrightarrow>
         (\<exists>msg. b k = HttpError msg) \<or> b k = HttpResponse None \<or> b k = HttpResponse (Some []))
    \<longrightarrow> generateContract svc b =
          (Inl (Error (''LLM generation failed after '' @ toString (maxRetries svc) @ '' attempts: '' @
                  (case b (maxRetries svc) of HttpError msg \<Rightarrow> msg
                   | HttpResponse _ \<Rightarrow>
                       ''Invalid response from '' @
                       (if provider svc = ''openai'' then ''OpenAI'' else ''Anthropic'') @ '' API''))),
           concat (map (\<lambda>k. [Attempt k, HttpPost k] @
                              (if k < maxRetries svc then [Delay (2 ^ k * 1000)] else []))
                     [1..<Suc (maxRetries svc)]))) \<and>
   ((provider svc = ''openai'' \<or> provider svc = ''anthropic'') \<and> maxRetries svc = 3 \<and>
    ((\<exists>msg. b 1 = HttpError msg) \<or> b 1 = HttpResponse None \<or> b 1 = HttpResponse (Some [])) \<and>
    ((\<exists>msg. b 2 = HttpError msg) \<or> b 2 = HttpResponse None \<or> b 2 = HttpResponse (Some [])) \<and>
    b 3 = HttpResponse (Some (c # cs))
    \<longrightarrow> generateContract svc b =
          (Inr c, [Attempt 1, HttpPost 1, Delay 2000, Attempt 2, HttpPost 2, Delay 4000,
                   Attempt 3, HttpPost 3])) \<and>
   (provider svc \<noteq> ''openai'' \<and> provider svc \<noteq> ''anthropic'' \<and> 1 \<le> maxRetries svc
    \<longrightarrow> generateContract svc b =
          (Inl (Error (''LLM generation failed after '' @ toString (maxRetries svc) @ '' attempts: '' @
                  ''Unsupported LLM provider: '' @ provider svc)),
           concat (map (\<lambda>k. [Attempt k] @
                              (if k < maxRetries svc then [Delay (2 ^ k * 1000)] else []))
                     [1..<Suc (maxRetries svc)]))) \<and>
   maxRetries (newLLMService env) = 3 \<and> provider (newLLMService env) = orDefault env ''openai''"
proof (intro conjI impI)
  assume h: "(provider svc = ''openai'' \<or> provider svc = ''anthropic'') \<and> 1 \<le> maxRetries svc \<and>
    (\<forall>k. 1 \<le> k \<and> k \<le> maxRetries svc \<longrightarrow>
         (\<exists>msg. b k = HttpError msg) \<or> b k = HttpResponse None \<or> b k = HttpResponse (Some []))"
  let ?e = "\<lambda>k. Error (case b k of HttpError msg \<Rightarrow> msg
                        | HttpResponse _ \<Rightarrow>
                            ''Invalid response from '' @
                            (if provider svc = ''openai'' then ''OpenAI'' else ''Anthropic'') @ '' API'')"
  have a: "\<forall>k. 1 \<le> k \<and> k \<le> maxRetries svc \<longrightarrow>
             attemptOnce svc b k = (Inl (?e k), [Attempt k, HttpPost k])"
    using h attemptOnce_supported_fail[of svc b] by blast
  from generateLoop_all_fail[of 1 svc b ?e "\<lambda>k. [Attempt k, HttpPost k]", OF a] h
  show "generateContract svc b =
          (Inl (Error (''LLM generation failed after '' @ toString (maxRetries svc) @ '' attempts: '' @
                  (case b (maxRetries svc) of HttpError msg \<Rightarrow> msg
                   | HttpResponse _ \<Rightarrow>
                       ''Invalid response from '' @
                       (if provider svc = ''openai'' then ''OpenAI'' else ''Anthropic'') @ '' API''))),
           concat (map (\<lambda>k. [Attempt k, HttpPost k] @
                              (if k < maxRetries svc then [Delay (2 ^ k * 1000)] else []))
                     [1..<Suc (maxRetries svc)]))"
    by (simp add: generateContract_def)
next
  assume h: "(provider svc = ''openai'' \<or> provider svc = ''anthropic'') \<and> maxRetries svc = 3 \<and>
    ((\<exists>msg. b 1 = HttpError msg) \<or> b 1 = HttpResponse None \<or> b 1 = HttpResponse (Some [])) \<and>
    ((\<exists>msg. b 2 = HttpError msg) \<or> b 2 = HttpResponse None \<or> b 2 = HttpResponse (Some [])) \<and>
    b 3 = HttpResponse (Some (c # cs))"
  then have p: "provider svc = ''openai'' \<or> provider svc = ''anthropic''" and m: "maxRetries svc = 3"
    by simp_all
  have n: "(1::nat) = Suc 0" "(2::nat) = Suc (Suc 0)" "(3::nat) = Suc (Suc (Suc 0))"
    by simp_all
  obtain e1 where f1: "attemptOnce svc b (Suc 0) = (Inl e1, [Attempt 1, HttpPost 1])"
    using attemptOnce_supported_fail[OF p, of b 1] h by auto
  obtain e2 where f2: "attemptOnce svc b (Suc (Suc 0)) = (Inl e2, [Attempt 2, HttpPost 2])"
    using attemptOnce_supported_fail[OF p, of b 2] h unfolding n(2)[symmetric] by auto
  have s3: "attemptOnce svc b (Suc (Suc (Suc 0))) = (Inr c, [Attempt 3, HttpPost 3])"
    using attemptOnce_supported_answer[OF p, of b 3 c cs] h unfolding n(3)[symmetric] by simp
  have g3: "generateLoop svc b (Suc (Suc (Suc 0))) = (Inr c, [Attempt 3, HttpPost 3])"
    by (rule generateLoop_success[OF s3]) (simp add: m)
  have g2: "generateLoop svc b (Suc (Suc 0)) =
      (Inr c, [Attempt 2, HttpPost 2, Delay 4000, Attempt 3, HttpPost 3])"
    using generateLoop_fail_step[OF f2] m by (simp add: g3)
  have g1: "generateLoop svc b (Suc 0) =
      (Inr c, [Attempt 1, HttpPost 1, Delay 2000, Attempt 2, HttpPost 2, Delay 4000,
               Attempt 3, HttpPost 3])"
    using generateLoop_fail_step[OF f1] m by (simp add: g2)
  show "generateContract svc b =
          (Inr c, [Attempt 1, HttpPost 1, Delay 2000, Attempt 2, HttpPost 2, Delay 4000,
                   Attempt 3, HttpPost 3])"
    by (simp add: generateContract_def g1)
next
  assume h: "provider svc \<noteq> ''openai'' \<and> provider svc \<noteq> ''anthropic'' \<and> 1 \<le> maxRetries svc"
  let ?e = "\<lambda>k::nat. Error (''Unsupported LLM provider: '' @ provider svc)"
  have a: "\<forall>k. 1 \<le> k \<and> k \<le> maxRetries svc \<longrightarrow> attemptOnce svc b k = (Inl (?e k), [Attempt k])"
    using h attemptOnce_unsupported[of svc b] by blast
  from generateLoop_all_fail[of 1 svc b ?e "\<lambda>k. [Attempt k]", OF a] h
  show "generateContract svc b =
          (Inl (Error (''LLM generation failed after '' @ toString (maxRetries svc) @ '' attempts: '' @
                  ''Unsupported LLM provider: '' @ provider svc)),
           concat (map (\<lambda>k. [Attempt k] @
                              (if k < maxRetries svc then [Delay (2 ^ k * 1000)] else []))
                     [1..<Suc (maxRetries svc)]))"
    by (simp add: generateContract_def)
next
  show "maxRetries (newLLMService env) = 3" by (simp add: newLLMService_def)
  show "provider (newLLMService env) = orDefault env ''openai''" by (simp add: newLLMService_def)
qed

theorem generateContract_retry_witness:
  "generateContract (newLLMService None) (failing ''timeout of 30000ms exceeded'') =
     (Inl (Error ''LLM generation failed after 3 attempts: timeout of 30000ms exceeded''),
      [Attempt 1, HttpPost 1, Delay 2000, Attempt 2, HttpPost 2, Delay 4000, Attempt 3, HttpPost 3]) \<and>
   generateContract (newLLMService (Some ''anthropic'')) emptyEnvelope =
     (Inl (Error ''LLM generation failed after 3 attempts: Invalid response from Anthropic API''),
      [Attempt 1, HttpPost 1, Delay 2000, Attempt 2, HttpPost 2, Delay 4000, Attempt 3, HttpPost 3]) \<and>
   generateContract (newLLMService (Some ''anthropic'')) (failingUntil 3 ''socket hang up'' ''contract A {}'') =
     (Inr (Some ''contract A {}''),
      [Attempt 1, HttpPost 1, Delay 2000, Attempt 2, HttpPost 2, Delay 4000, Attempt 3, HttpPost 3]) \<and>
   generateContract (newLLMService (Some ''gemini'')) (failing ''unused'') =
     (Inl (Error ''LLM generation failed after 3 attempts: Unsupported LLM provider: gemini''),
      [Attempt 1, Delay 2000, Attempt 2, Delay 4000, Attempt 3])"
proof -
  let ?o = "newLLMService None"
  let ?a = "newLLMService (Some ''anthropic'')"
  let ?g = "newLLMService (Some ''gemini'')"
  let ?b1 = "failing ''timeout of 30000ms exceeded''"
  let ?b3 = "failingUntil 3 ''socket hang up'' ''contract A {}''"
  have ts: "toString 3 = ''3''" by (subst toString.simps) simp
  have u: "[Suc 0..<4] = [Suc 0, 2, 3]" by (simp add: upt_rec)
  have h1: "(provider ?o = ''openai'' \<or> provider ?o = ''anthropic'') \<and> 1 \<le> maxRetries ?o \<and>
    (\<forall>k. 1 \<le> k \<and> k \<le> maxRetries ?o \<longrightarrow>
         (\<exists>msg. ?b1 k = HttpError msg) \<or> ?b1 k = HttpResponse None \<or> ?b1 k = HttpResponse (Some []))"
    by (simp add: newLLMService_def orDefault_def failing_def)
  have h2: "(provider ?a = ''openai'' \<or> provider ?a = ''anthropic'') \<and> 1 \<le> maxRetries ?a \<and>
    (\<forall>k. 1 \<le> k \<and> k \<le> maxRetries ?a \<longrightarrow>
         (\<exists>msg. emptyEnvelope k = HttpError msg) \<or> emptyEnvelope k = HttpResponse None \<or>
         emptyEnvelope k = HttpResponse (Some []))"
    by (simp add: newLLMService_def orDefault_def emptyEnvelope_def)
  have h3: "(provider ?a = ''openai'' \<or> provider ?a = ''anthropic'') \<and> maxRetries ?a = 3 \<and>
    ((\<exists>msg. ?b3 1 = HttpError msg) \<or> ?b3 1 = HttpResponse None \<or> ?b3 1 = HttpResponse (Some [])) \<and>
    ((\<exists>msg. ?b3 2 = HttpError msg) \<or> ?b3 2 = HttpResponse None \<or> ?b3 2 = HttpResponse (Some [])) \<and>
    ?b3 3 = HttpResponse (Some (Some ''contract A {}'' # []))"
    by (simp add: newLLMService_def orDefault_def failingUntil_def)
  have h4: "provider ?g \<noteq> ''openai'' \<and> provider ?g \<noteq> ''anthropic'' \<and> 1 \<le> maxRetries ?g"
    by (simp add: newLLMService_def orDefault_def)
  have p: "provider ?o = ''openai''" "provider ?a = ''anthropic''" "provider ?g = ''gemini''"
    "maxRetries ?o = 3" "maxRetries ?a = 3" "maxRetries ?g = 3"
    by (simp_all add: newLLMService_def orDefault_def)
  have r1: "generateContract ?o ?b1 =
     (Inl (Error ''LLM generation failed after 3 attempts: timeout of 30000ms exceeded''),
      [Attempt 1, HttpPost 1, Delay 2000, Attempt 2, HttpPost 2, Delay 4000, Attempt 3, HttpPost 3])"
    using generateContract_retry[of ?o ?b1, THEN conjunct1, THEN mp, OF h1]
    by (simp add: p ts u failing_def)
  have r2: "generateContract ?a emptyEnvelope =
     (Inl (Error ''LLM generation failed after 3 attempts: Invalid response from Anthropic API''),
      [Attempt 1, HttpPost 1, Delay 2000, Attempt 2, HttpPost 2, Delay 4000, Attempt 3, HttpPost 3])"
    using generateContract_retry[of ?a emptyEnvelope, THEN conjunct1, THEN mp, OF h2]
    by (simp add: p ts u emptyEnvelope_def)
  have r3: "generateContract ?a ?b3 =
     (Inr (Some ''contract A {}''),
      [Attempt 1, HttpPost 1, Delay 2000, Attempt 2, HttpPost 2, Delay 4000, Attempt 3, HttpPost 3])"
    by (rule generateContract_retry[of ?a ?b3, THEN conjunct2, THEN conjunct1, THEN mp, OF h3])
  have r4: "generateContract ?g (failing ''unused'') =
     (Inl (Error ''LLM generation failed after 3 attempts: Unsupported LLM provider: gemini''),
      [Attempt 1, Delay 2000, Attempt 2, Delay 4000, Attempt 3])"
    using generateContract_retry[of ?g "failing ''unused''", THEN conjunct2, THEN conjunct2, THEN conjunct1, THEN mp, OF h4]
    by (simp add: p ts u)
  show ?thesis using r1 r2 r3 r4 by (intro conjI)
qed

section \<open>Properties of the sanitizer\<close>

lemma startsWith_iff: "startsWith s p \<longleftrightarrow> (\<exists>r. s = p @ r)"
proof
  assume "startsWith s p"
  then have "s = p @ drop (length p) s"
    unfolding startsWith_def by (metis append_take_drop_id)
  then show "\<exists>r. s = p @ r" ..
next
  assume "\<exists>r. s = p @ r"
  then show "startsWith s p" unfolding startsWith_def by auto
qed

lemma startsWith_Nil [simp]: "startsWith s []"
  by (simp add: startsWith_def)

lemma startsWith_Cons:
  "startsWith (d # X) q \<longleftrightarrow> (case q of [] \<Rightarrow> True | e # q' \<Rightarrow> e = d \<and> startsWith X q')"
  by (auto simp: startsWith_def split: list.splits)

lemma startsWith_overlap:
  assumes "startsWith (u @ w) p" and "\<not> startsWith u p"
  shows "\<exists>v. v \<noteq> [] \<and> p = u @ v \<and> startsWith w v"
proof -
  from assms(1) obtain r where r: "u @ w = p @ r" unfolding startsWith_iff by blast
  have "\<not> length p \<le> length u"
  proof
    assume "length p \<le> length u"
    then have "take (length p) u = take (length p) (u @ w)" by simp
    also have "\<dots> = p" using r by simp
    finally show False using assms(2) by (simp add: startsWith_def)
  qed
  then have lt: "length u < length p" by simp
  have "p = take (length p) (u @ w)" using r by simp
  then have p: "p = u @ take (length p - length u) w" using lt by simp
  have ne: "take (length p - length u) w \<noteq> []"
    using p lt by (metis append.right_neutral less_irrefl)
  have "startsWith w (take (length p - length u) w)"
    unfolding startsWith_iff by (metis append_take_drop_id)
  then show ?thesis using p ne by blast
qed

lemma startsWith_appendI: "startsWith u p \<Longrightarrow> startsWith (u @ w) p"
  unfolding startsWith_iff by auto

lemma includesStr_iff: "includesStr s p \<longleftrightarrow> (\<exists>a b. s = a @ p @ b)"
proof (induction s)
  case Nil
  then show ?case by auto
next
  case (Cons c cs)
  show ?case
  proof
    assume "includesStr (c # cs) p"
    then consider "startsWith (c # cs) p" | "includesStr cs p" by auto
    then show "\<exists>a b. c # cs = a @ p @ b"
    proof cases
      case 1
      then obtain r where "c # cs = p @ r" unfolding startsWith_iff by blast
      then have "c # cs = [] @ p @ r" by simp
      then show ?thesis by blast
    next
      case 2
      then obtain a b where "cs = a @ p @ b" using Cons.IH by blast
      then have "c # cs = (c # a) @ p @ b" by simp
      then show ?thesis by blast
    qed
  next
    assume "\<exists>a b. c # cs = a @ p @ b"
    then obtain a b where ab: "c # cs = a @ p @ b" by blast
    show "includesStr (c # cs) p"
    proof (cases a)
      case Nil
      then have "startsWith (c # cs) p" using ab unfolding startsWith_iff by auto
      then show ?thesis by simp
    next
      case (Cons x a')
      then have "cs = a' @ p @ b" using ab by simp
      then have "includesStr cs p" using Cons.IH by blast
      then show ?thesis by simp
    qed
  qed
qed

lemma count_occ_pos: "0 < count_occ p s \<longleftrightarrow> includesStr s p"
  by (induction s) auto

lemma count_occ_zero: "count_occ p s = 0 \<longleftrightarrow> \<not> includesStr s p"
  using count_occ_pos[of p s] by auto

lemma startsWith_sep:
  assumes "c \<notin> set p"
  shows "startsWith (u @ c # b) p \<longleftrightarrow> startsWith u p"
proof
  assume l: "startsWith (u @ c # b) p"
  show "startsWith u p"
  proof (rule ccontr)
    assume "\<not> startsWith u p"
    from startsWith_overlap[OF l this] obtain v where
      v: "v \<noteq> []" "p = u @ v" "startsWith (c # b) v" by blast
    then have "hd v = c" by (cases v) (auto simp: startsWith_Cons)
    then have "c \<in> set p" using v by (metis hd_in_set in_set_conv_decomp append.assoc split_list)
    then show False using assms by simp
  qed
next
  assume "startsWith u p"
  then show "startsWith (u @ c # b) p" by (rule startsWith_appendI)
qed

lemma count_occ_sep:
  assumes "c \<notin> set p" and "p \<noteq> []"
  shows "count_occ p (a @ c # b) = count_occ p a + count_occ p b"
proof (induction a)
  case Nil
  have "\<not> startsWith (c # b) p"
    using assms by (auto simp: startsWith_Cons split: list.splits)
  then show ?case using assms by simp
next
  case (Cons x a)
  have "startsWith ((x # a) @ c # b) p \<longleftrightarrow> startsWith (x # a) p"
    by (rule startsWith_sep[OF assms(1)])
  then show ?case using Cons.IH by simp
qed

lemma startsWith_collapse:
  "NL \<notin> set q \<Longrightarrow> startsWith (collapseFrom 0 cs) q \<longleftrightarrow> startsWith cs q"
proof (induction cs arbitrary: q)
  case Nil
  then show ?case by simp
next
  case (Cons d ds)
  show ?case
  proof (cases q)
    case Nil
    then show ?thesis by simp
  next
    case (Cons e q')
    then have "NL \<notin> set q'" and "e \<noteq> NL" using Cons.prems by auto
    then show ?thesis using Cons.IH[of q'] Cons by (simp add: startsWith_Cons)
  qed
qed

lemma count_occ_collapse:
  assumes "NL \<notin> set p" and "p \<noteq> []"
  shows "count_occ p (collapseFrom k s) = count_occ p s"
proof (induction s arbitrary: k)
  case Nil
  then show ?case by simp
next
  case (Cons c cs)
  show ?case
  proof (cases "c = NL")
    case True
    have "\<And>X. \<not> startsWith (c # X) p"
      using assms True by (auto simp: startsWith_Cons split: list.splits)
    then show ?thesis using True Cons.IH by simp
  next
    case False
    have "startsWith (c # collapseFrom 0 cs) p \<longleftrightarrow> startsWith (c # cs) p"
      using assms startsWith_collapse[of "tl p" cs]
      by (cases p) (auto simp: startsWith_Cons)
    then show ?thesis using False Cons.IH by simp
  qed
qed

lemma count_occ_dropWhile:
  assumes "p \<noteq> []" and "\<not> P (hd p)"
  shows "count_occ p (dropWhile P s) = count_occ p s"
proof (induction s)
  case Nil
  then show ?case by simp
next
  case (Cons c cs)
  show ?case
  proof (cases "P c")
    case True
    have "\<not> startsWith (c # cs) p"
      using assms True by (cases p) (auto simp: startsWith_Cons)
    then show ?thesis using True Cons.IH by simp
  next
    case False
    then show ?thesis by simp
  qed
qed

lemma count_occ_trailing:
  assumes "p \<noteq> []" and "\<not> P (last p)" and "\<forall>c\<in>set w. P c"
  shows "count_occ p (y @ w) = count_occ p y"
proof (induction y)
  case Nil
  have "\<not> includesStr w p"
  proof
    assume "includesStr w p"
    then obtain a b where "w = a @ p @ b" unfolding includesStr_iff by blast
    then have "last p \<in> set w" using assms(1) by auto
    then show False using assms by blast
  qed
  then show ?case using assms(1) by (simp add: count_occ_zero)
next
  case (Cons x y)
  have "startsWith ((x # y) @ w) p \<longleftrightarrow> startsWith (x # y) p"
  proof
    assume l: "startsWith ((x # y) @ w) p"
    show "startsWith (x # y) p"
    proof (rule ccontr)
      assume "\<not> startsWith (x # y) p"
      from startsWith_overlap[OF l this] obtain v where
        v: "v \<noteq> []" "p = (x # y) @ v" "startsWith w v" by blast
      then obtain r where "w = v @ r" unfolding startsWith_iff by blast
      then have "last v \<in> set w" using v(1) by auto
      moreover have "last p = last v" using v by simp
      ultimately show False using assms by auto
    qed
  next
    assume "startsWith (x # y) p"
    then show "startsWith ((x # y) @ w) p" by (rule startsWith_appendI)
  qed
  then show ?case using Cons.IH by simp
qed

lemma trimEnd_decomp:
  "s = rev (dropWhile P (rev s)) @ rev (takeWhile P (rev s))"
  by (metis rev_append rev_rev_ident takeWhile_dropWhile_id)

lemma count_occ_trimEnd:
  assumes "p \<noteq> []" and "\<not> P (last p)"
  shows "count_occ p (rev (dropWhile P (rev s))) = count_occ p s"
proof -
  have "\<forall>c\<in>set (rev (takeWhile P (rev s))). P c"
    by (auto dest: set_takeWhileD)
  from count_occ_trailing[OF assms this, of "rev (dropWhile P (rev s))"]
  show ?thesis using trimEnd_decomp[of s P] by simp
qed

lemma count_occ_clean:
  assumes "p \<noteq> []" and "NL \<notin> set p" and "\<not> isWhiteSpace (hd p)" and "\<not> isWhiteSpace (last p)"
  shows "count_occ p (trim (collapseBlank s)) = count_occ p s"
  unfolding trim_def collapseBlank_def
  by (simp add: count_occ_trimEnd[of p isWhiteSpace, OF assms(1,4)]
      count_occ_dropWhile[of p isWhiteSpace, OF assms(1,3)] count_occ_collapse[OF assms(2,1)])

lemma split_nl_nonempty: "split_nl s \<noteq> []"
  by (induction s) (auto split: list.splits)

lemma join_nl_Cons: "ls \<noteq> [] \<Longrightarrow> join_nl (l # ls) = l @ NL # join_nl ls"
  by (cases ls) simp_all

lemma join_split: "join_nl (split_nl s) = s"
proof (induction s)
  case Nil
  then show ?case by simp
next
  case (Cons c cs)
  show ?case
  proof (cases "c = NL")
    case True
    then show ?thesis using Cons.IH by (simp add: join_nl_Cons split_nl_nonempty)
  next
    case False
    obtain l ls where sp: "split_nl cs = l # ls"
      using split_nl_nonempty[of cs] by (cases "split_nl cs") auto
    have "join_nl ((c # l) # ls) = c # join_nl (l # ls)"
      by (cases ls) simp_all
    then show ?thesis using False sp Cons.IH by simp
  qed
qed

lemma count_occ_join:
  assumes "p \<noteq> []" and "NL \<notin> set p"
  shows "ls \<noteq> [] \<Longrightarrow> count_occ p (join_nl ls) = sum_list (map (count_occ p) ls)"
proof (induction ls rule: join_nl.induct)
  case 1
  then show ?case by simp
next
  case (2 l)
  then show ?case by simp
next
  case (3 l v va)
  have "count_occ p (l @ NL # join_nl (v # va)) = count_occ p l + count_occ p (join_nl (v # va))"
    by (rule count_occ_sep[OF assms(2,1)])
  then show ?case using 3 by simp
qed

lemma findIndex_Some:
  "findIndex P ls = Some i \<Longrightarrow> i < length ls \<and> P (ls ! i) \<and> (\<forall>j<i. \<not> P (ls ! j))"
proof (induction ls arbitrary: i)
  case Nil
  then show ?case by simp
next
  case (Cons x xs)
  show ?case
  proof (cases "P x")
    case True
    then show ?thesis using Cons.prems by auto
  next
    case False
    then obtain i' where i': "findIndex P xs = Some i'" "i = Suc i'"
      using Cons.prems by auto
    from Cons.IH[OF i'(1)] show ?thesis
      using False i'(2) by (auto simp: nth_Cons split: nat.splits)
  qed
qed

lemma findIndex_None: "findIndex P ls = None \<Longrightarrow> \<forall>x\<in>set ls. \<not> P x"
  by (induction ls) (auto split: if_splits)

lemma includes_some_line:
  assumes "includesStr u p" and "p \<noteq> []" and "NL \<notin> set p"
  shows "\<exists>l\<in>set (split_nl u). includesStr l p"
proof (rule ccontr)
  assume "\<not> (\<exists>l\<in>set (split_nl u). includesStr l p)"
  then have "\<forall>l\<in>set (split_nl u). count_occ p l = 0"
    by (simp add: count_occ_zero)
  then have "sum_list (map (count_occ p) (split_nl u)) = 0" by simp
  then have "count_occ p (join_nl (split_nl u)) = 0"
    using count_occ_join[OF assms(2,3) split_nl_nonempty] by simp
  then show False using assms(1) by (simp add: join_split count_occ_zero)
qed

lemma sum_list_insert:
  "sum_list (map f (take n ls @ [x] @ drop n ls)) = sum_list (map f ls) + (f x :: nat)"
proof -
  have "sum_list (map f ls) = sum_list (map f (take n ls @ drop n ls))" by simp
  also have "\<dots> = sum_list (map f (take n ls)) + sum_list (map f (drop n ls))"
    by (simp only: map_append sum_list_append)
  finally show ?thesis by simp
qed

lemma NL_notin_SPDX: "NL \<notin> set SPDX" "SPDX \<noteq> []" "\<not> isWhiteSpace (hd SPDX)" "\<not> isWhiteSpace (last SPDX)"
  by (simp_all add: SPDX_def NL_def isWhiteSpace_def)

lemma NL_notin_PRAGMA: "NL \<notin> set PRAGMA" "PRAGMA \<noteq> []" "\<not> isWhiteSpace (hd PRAGMA)" "\<not> isWhiteSpace (last PRAGMA)"
  by (simp_all add: PRAGMA_def NL_def isWhiteSpace_def)

lemma default_counts:
  "count_occ SPDX defaultLicense = 1" "count_occ PRAGMA defaultLicense = 0"
  "count_occ SPDX defaultPragma = 0" "count_occ PRAGMA defaultPragma = 1"
  by (simp_all add: SPDX_def PRAGMA_def defaultLicense_def defaultPragma_def startsWith_def)

lemma ensureLicense_count:
  assumes "p \<noteq> []" and "NL \<notin> set p"
  shows "count_occ p (ensureLicense t) =
           count_occ p t + (if includesStr t SPDX then 0 else count_occ p defaultLicense)"
  using count_occ_sep[OF assms(2,1), of defaultLicense t]
  by (simp add: ensureLicense_def)

lemma ensureLicense_includes: "includesStr (ensureLicense t) SPDX"
proof -
  have "0 < count_occ SPDX (ensureLicense t)"
    using ensureLicense_count[OF NL_notin_SPDX(2,1), of t]
    by (auto simp: default_counts count_occ_pos)
  then show ?thesis by (simp add: count_occ_pos)
qed

lemma ensurePragma_count:
  assumes "p \<noteq> []" and "NL \<notin> set p" and "includesStr u SPDX"
  shows "count_occ p (ensurePragma u) =
           count_occ p u + (if includesStr u PRAGMA then 0 else count_occ p defaultPragma)"
proof (cases "includesStr u PRAGMA")
  case True
  then show ?thesis by (simp add: ensurePragma_def)
next
  case False
  from includes_some_line[OF assms(3) NL_notin_SPDX(2,1)]
  obtain i where i: "findIndex (\<lambda>line. includesStr line SPDX) (split_nl u) = Some i"
    using findIndex_None by (cases "findIndex (\<lambda>line. includesStr line SPDX) (split_nl u)") blast+
  let ?ls = "take (i + 1) (split_nl u) @ [defaultPragma] @ drop (i + 1) (split_nl u)"
  have e: "ensurePragma u = join_nl ?ls"
    using False i by (simp add: ensurePragma_def Let_def)
  have "count_occ p (join_nl ?ls) = sum_list (map (count_occ p) ?ls)"
    by (rule count_occ_join[OF assms(1,2)]) simp
  also have "\<dots> = sum_list (map (count_occ p) (split_nl u)) + count_occ p defaultPragma"
    by (rule sum_list_insert)
  also have "sum_list (map (count_occ p) (split_nl u)) = count_occ p (join_nl (split_nl u))"
    by (rule count_occ_join[OF assms(1,2) split_nl_nonempty, symmetric])
  finally show ?thesis using False e by (simp add: join_split)
qed

lemma cleaned_counts:
  "count_occ SPDX (ensurePragma (ensureLicense t)) = (if includesStr t SPDX then count_occ SPDX t else 1)"
  "count_occ PRAGMA (ensurePragma (ensureLicense t)) = (if includesStr t PRAGMA then count_occ PRAGMA t else 1)"
proof -
  have a: "count_occ SPDX (ensureLicense t) = (if includesStr t SPDX then count_occ SPDX t else 1)"
    using ensureLicense_count[OF NL_notin_SPDX(2,1), of t]
    by (auto simp: default_counts count_occ_zero)
  have b: "count_occ PRAGMA (ensureLicense t) = count_occ PRAGMA t"
    using ensureLicense_count[OF NL_notin_PRAGMA(2,1), of t]
    by (auto simp: default_counts)
  have b': "includesStr (ensureLicense t) PRAGMA \<longleftrightarrow> includesStr t PRAGMA"
    using b by (metis count_occ_pos)
  show "count_occ SPDX (ensurePragma (ensureLicense t)) = (if includesStr t SPDX then count_occ SPDX t else 1)"
    using ensurePragma_count[OF NL_notin_SPDX(2,1) ensureLicense_includes, of t] a
    by (simp add: default_counts)
  show "count_occ PRAGMA (ensurePragma (ensureLicense t)) = (if includesStr t PRAGMA then count_occ PRAGMA t else 1)"
    using ensurePragma_count[OF NL_notin_PRAGMA(2,1) ensureLicense_includes, of t] b b'
    by (auto simp: default_counts count_occ_zero)
qed

lemma sanitize_result:
  "validateAndCleanContract (Some code) = Inr r \<longleftrightarrow>
     code \<noteq> [] \<and> hasDeclaration (ensurePragma (ensureLicense (cleanLines code))) \<and>
     r = trim (collapseBlank (ensurePragma (ensureLicense (cleanLines code))))"
  by (auto simp: validateAndCleanContract_def Let_def)

lemma sanitize_empty: "\<not> hasDeclaration (ensurePragma (ensureLicense (cleanLines [])))"
  by code_simp

lemma includesStr_prefix: "includesStr s (p @ q) \<Longrightarrow> includesStr s p"
proof -
  assume "includesStr s (p @ q)"
  then obtain a b where "s = a @ (p @ q) @ b" unfolding includesStr_iff by blast
  then have "s = a @ p @ (q @ b)" by simp
  then show ?thesis unfolding includesStr_iff by blast
qed

lemma includesStr_clean:
  assumes "includesStr s p" and "p \<noteq> []" and "\<forall>c\<in>set p. \<not> isWhiteSpace c"
  shows "includesStr (trim (collapseBlank s)) p"
proof -
  have nl: "NL \<notin> set p" using assms(3) by (auto simp: NL_def isWhiteSpace_def)
  have h: "\<not> isWhiteSpace (hd p)" "\<not> isWhiteSpace (last p)" using assms(2,3) by auto
  have "count_occ p (trim (collapseBlank s)) = count_occ p s"
    by (rule count_occ_clean[OF assms(2) nl h])
  then show ?thesis using assms(1) by (metis count_occ_pos)
qed

lemma declaration_word_left:
  assumes "hasDeclaration s"
  shows "includesStr (trim (collapseBlank s)) ''contract'' \<or>
         includesStr (trim (collapseBlank s)) ''interface'' \<or>
         includesStr (trim (collapseBlank s)) ''library''"
proof -
  have w: "\<forall>c\<in>set ''contract''. \<not> isWhiteSpace c" "\<forall>c\<in>set ''interface''. \<not> isWhiteSpace c"
    "\<forall>c\<in>set ''library''. \<not> isWhiteSpace c"
    by (simp_all add: isWhiteSpace_def)
  from assms consider "includesStr s (''contract'' @ '' '')" | "includesStr s (''interface'' @ '' '')"
    | "includesStr s (''library'' @ '' '')"
    unfolding hasDeclaration_def by auto
  then show ?thesis
  proof cases
    case 1
    from includesStr_clean[OF includesStr_prefix[OF 1] _ w(1)] show ?thesis by simp
  next
    case 2
    from includesStr_clean[OF includesStr_prefix[OF 2] _ w(2)] show ?thesis by simp
  next
    case 3
    from includesStr_clean[OF includesStr_prefix[OF 3] _ w(3)] show ?thesis by simp
  qed
qed

lemma split_nl_sep: "NL \<notin> set a \<Longrightarrow> split_nl (a @ NL # b) = a # split_nl b"
  by (induction a) (auto split: list.splits)

lemma split_nl_no_NL: "\<forall>l\<in>set (split_nl s). NL \<notin> set l"
  by (induction s) (auto split: list.splits)

lemma split_join:
  "ls \<noteq> [] \<Longrightarrow> \<forall>l\<in>set ls. NL \<notin> set l \<Longrightarrow> split_nl (join_nl ls) = ls"
proof (induction ls rule: join_nl.induct)
  case 1
  then show ?case by simp
next
  case (2 l)
  then have "NL \<notin> set l" by simp
  then have "split_nl l = [l]" by (induction l) (auto split: list.splits)
  then show ?case by simp
next
  case (3 l v va)
  then show ?case by (simp add: split_nl_sep)
qed

lemma collapse_prefix:
  "NL \<notin> set a \<Longrightarrow> a \<noteq> [] \<Longrightarrow> collapseFrom k (a @ NL # z) = a @ NL # collapseFrom 1 z"
proof (induction a arbitrary: k)
  case Nil
  then show ?case by simp
next
  case (Cons x a)
  have x: "x \<noteq> NL" using Cons.prems by auto
  show ?case
  proof (cases "a = []")
    case True
    then show ?thesis using x by simp
  next
    case False
    then show ?thesis using x Cons.prems Cons.IH[of 0] by simp
  qed
qed

lemma collapse_keeps: "c \<in> set s \<Longrightarrow> c \<noteq> NL \<Longrightarrow> c \<in> set (collapseFrom k s)"
  by (induction s arbitrary: k) auto

lemma trimEnd_append:
  assumes "\<exists>c\<in>set x. \<not> P c"
  shows "rev (dropWhile P (rev (y @ x))) = y @ rev (dropWhile P (rev x))"
proof -
  from assms obtain c where "c \<in> set (rev x)" "\<not> P c" by auto
  then have "dropWhile P (rev x @ rev y) = dropWhile P (rev x) @ rev y"
    by (rule dropWhile_append1)
  then show ?thesis by simp
qed

lemma trim_keeps_prefix:
  assumes "y \<noteq> []" and "\<not> isWhiteSpace (hd y)" and "\<exists>c\<in>set x. \<not> isWhiteSpace c"
  shows "trim (y @ x) = y @ rev (dropWhile isWhiteSpace (rev x))"
proof -
  have "dropWhile isWhiteSpace (y @ x) = y @ x"
    using assms(1,2) by (cases y) simp_all
  then show ?thesis unfolding trim_def using trimEnd_append[OF assms(3)] by simp
qed

lemma includes_has_char:
  "includesStr t p \<Longrightarrow> c \<in> set p \<Longrightarrow> c \<in> set t"
  unfolding includesStr_iff by auto

lemma license_facts:
  "NL \<notin> set defaultLicense" "defaultLicense \<noteq> []" "\<not> isWhiteSpace (hd defaultLicense)"
  "includesStr defaultLicense SPDX"
  "NL \<notin> set defaultPragma" "defaultPragma \<noteq> []" "\<not> isWhiteSpace (hd defaultPragma)"
  by (simp_all add: defaultLicense_def defaultPragma_def NL_def isWhiteSpace_def SPDX_def startsWith_def)

lemma license_prepended:
  assumes "\<not> includesStr t SPDX"
  shows "ensurePragma (ensureLicense t) =
           (if includesStr t PRAGMA then defaultLicense @ NL # t
            else defaultLicense @ NL # defaultPragma @ NL # t)"
proof -
  have e: "ensureLicense t = defaultLicense @ NL # t"
    using assms by (simp add: ensureLicense_def)
  have c: "count_occ PRAGMA (defaultLicense @ NL # t) = count_occ PRAGMA t"
    using count_occ_sep[OF NL_notin_PRAGMA(1,2), of defaultLicense t] by (simp add: default_counts)
  have inc: "includesStr (defaultLicense @ NL # t) PRAGMA \<longleftrightarrow> includesStr t PRAGMA"
    using c by (metis count_occ_pos)
  show ?thesis
  proof (cases "includesStr t PRAGMA")
    case True
    then show ?thesis using inc by (simp add: e ensurePragma_def)
  next
    case False
    have sp: "split_nl (defaultLicense @ NL # t) = defaultLicense # split_nl t"
      by (rule split_nl_sep[OF license_facts(1)])
    have "ensurePragma (defaultLicense @ NL # t) = join_nl (defaultLicense # defaultPragma # split_nl t)"
      using False inc by (simp add: ensurePragma_def Let_def sp license_facts(4))
    also have "\<dots> = defaultLicense @ NL # defaultPragma @ NL # join_nl (split_nl t)"
      by (simp add: join_nl_Cons split_nl_nonempty)
    finally show ?thesis using False by (simp add: e join_split)
  qed
qed

lemma pragma_position:
  assumes "\<not> includesStr u PRAGMA" and "includesStr u SPDX"
  shows "\<exists>i. i < length (split_nl u) \<and> includesStr (split_nl u ! i) SPDX \<and>
             (\<forall>j<i. \<not> includesStr (split_nl u ! j) SPDX) \<and>
             split_nl (ensurePragma u) =
               take (Suc i) (split_nl u) @ [defaultPragma] @ drop (Suc i) (split_nl u)"
proof -
  from includes_some_line[OF assms(2) NL_notin_SPDX(2,1)]
  obtain i where i: "findIndex (\<lambda>line. includesStr line SPDX) (split_nl u) = Some i"
    using findIndex_None by (cases "findIndex (\<lambda>line. includesStr line SPDX) (split_nl u)") blast+
  let ?ls = "take (Suc i) (split_nl u) @ [defaultPragma] @ drop (Suc i) (split_nl u)"
  have e: "ensurePragma u = join_nl ?ls"
    using assms(1) i by (simp add: ensurePragma_def Let_def)
  have "\<forall>l\<in>set ?ls. NL \<notin> set l"
    using split_nl_no_NL[of u] license_facts(5)
    by (auto dest: in_set_takeD in_set_dropD)
  then have "split_nl (join_nl ?ls) = ?ls"
    by (intro split_join) simp_all
  then show ?thesis using findIndex_Some[OF i] e by auto
qed

lemma keyword_counts:
  "count_occ ''contract '' defaultLicense = 0" "count_occ ''contract '' defaultPragma = 0"
  "count_occ ''interface '' defaultLicense = 0" "count_occ ''interface '' defaultPragma = 0"
  "count_occ ''library '' defaultLicense = 0" "count_occ ''library '' defaultPragma = 0"
  by code_simp+

lemma keyword_not_in_defaults:
  assumes "kw \<in> {''contract '', ''interface '', ''library ''}"
  shows "count_occ kw defaultLicense = 0" "count_occ kw defaultPragma = 0"
    "NL \<notin> set kw" "kw \<noteq> []" "\<not> isWhiteSpace (hd kw)"
  using assms keyword_counts
  by (auto simp: NL_def isWhiteSpace_def)

lemma declaration_in_tail:
  assumes "hasDeclaration (defaultLicense @ NL # defaultPragma @ NL # t)"
  shows "\<exists>c\<in>set t. \<not> isWhiteSpace c"
proof -
  from assms obtain kw where kw: "kw \<in> {''contract '', ''interface '', ''library ''}"
    and inc: "includesStr (defaultLicense @ NL # defaultPragma @ NL # t) kw"
    unfolding hasDeclaration_def by auto
  note k = keyword_not_in_defaults[OF kw]
  have "count_occ kw (defaultLicense @ NL # defaultPragma @ NL # t) =
          count_occ kw defaultLicense + count_occ kw (defaultPragma @ NL # t)"
    by (rule count_occ_sep[OF k(3,4)])
  also have "count_occ kw (defaultPragma @ NL # t) = count_occ kw defaultPragma + count_occ kw t"
    by (rule count_occ_sep[OF k(3,4)])
  finally have "count_occ kw (defaultLicense @ NL # defaultPragma @ NL # t) = count_occ kw t"
    using k(1,2) by simp
  then have "includesStr t kw" using inc by (metis count_occ_pos)
  then have "hd kw \<in> set t" using k(4) by (intro includes_has_char[of t kw]) simp_all
  then show ?thesis using k(5) by blast
qed

lemma collapse_length: "length (collapseFrom k s) \<le> length s"
  by (induction s arbitrary: k) (auto intro: le_SucI)

lemma collapse_idem: "collapseFrom k (collapseFrom k s) = collapseFrom k s"
  by (induction s arbitrary: k) auto

lemma collapse_fixed_NL:
  assumes "collapseFrom k (NL # cs) = NL # cs"
  shows "k < 2 \<and> collapseFrom (Suc k) cs = cs"
proof (cases "k < 2")
  case True
  then show ?thesis using assms by simp
next
  case False
  then have "collapseFrom k cs = NL # cs" using assms by simp
  then have "length (NL # cs) \<le> length cs" using collapse_length[of k cs] by simp
  then show ?thesis by simp
qed

lemma collapse_fixed_mono:
  "collapseFrom k s = s \<Longrightarrow> j \<le> k \<Longrightarrow> collapseFrom j s = s"
proof (induction s arbitrary: k j)
  case Nil
  then show ?case by simp
next
  case (Cons c cs)
  show ?case
  proof (cases "c = NL")
    case True
    from collapse_fixed_NL[OF Cons.prems(1)[unfolded True]]
    have k: "k < 2" and f: "collapseFrom (Suc k) cs = cs" by simp_all
    have "collapseFrom (Suc j) cs = cs"
      using Cons.IH[OF f, of "Suc j"] Cons.prems(2) by simp
    then show ?thesis using True k Cons.prems(2) by simp
  next
    case False
    then show ?thesis using Cons.prems by simp
  qed
qed

lemma collapse_fixed_suffix:
  "collapseFrom k (a @ b) = a @ b \<Longrightarrow> collapseFrom 0 b = b"
proof (induction a arbitrary: k)
  case Nil
  then show ?case using collapse_fixed_mono[of k b 0] by simp
next
  case (Cons c a)
  show ?case
  proof (cases "c = NL")
    case True
    from collapse_fixed_NL[of k "a @ b"] Cons.prems True
    have "collapseFrom (Suc k) (a @ b) = a @ b" by simp
    then show ?thesis by (rule Cons.IH)
  next
    case False
    then have "collapseFrom 0 (a @ b) = a @ b" using Cons.prems by simp
    then show ?thesis by (rule Cons.IH)
  qed
qed

lemma collapse_fixed_prefix:
  "collapseFrom k (a @ b) = a @ b \<Longrightarrow> collapseFrom k a = a"
proof (induction a arbitrary: k)
  case Nil
  then show ?case by simp
next
  case (Cons c a)
  show ?case
  proof (cases "c = NL")
    case True
    from collapse_fixed_NL[of k "a @ b"] Cons.prems True
    have k: "k < 2" and f: "collapseFrom (Suc k) (a @ b) = a @ b" by simp_all
    from Cons.IH[OF f] show ?thesis using True k by simp
  next
    case False
    then have "collapseFrom 0 (a @ b) = a @ b" using Cons.prems by simp
    from Cons.IH[OF this] show ?thesis using False by simp
  qed
qed

lemma collapse_trim_fixed:
  assumes "collapseFrom 0 z = z"
  shows "collapseFrom 0 (trim z) = trim z"
proof -
  let ?u = "dropWhile isWhiteSpace z"
  have "collapseFrom 0 (takeWhile isWhiteSpace z @ ?u) = takeWhile isWhiteSpace z @ ?u"
    using assms by simp
  then have u: "collapseFrom 0 ?u = ?u" by (rule collapse_fixed_suffix)
  have "collapseFrom 0 (trim z @ rev (takeWhile isWhiteSpace (rev ?u)))
          = trim z @ rev (takeWhile isWhiteSpace (rev ?u))"
    unfolding trim_def using u trimEnd_decomp[of ?u isWhiteSpace] by simp
  then show ?thesis by (rule collapse_fixed_prefix)
qed

lemma trim_idem: "trim (trim z) = trim z"
proof -
  define u where "u = dropWhile isWhiteSpace z"
  define v where "v = rev (dropWhile isWhiteSpace (rev u))"
  have tz: "trim z = v" by (simp add: trim_def u_def v_def)
  have d: "dropWhile isWhiteSpace v = v"
  proof (cases v)
    case Nil
    then show ?thesis by simp
  next
    case (Cons c cs)
    have dec: "u = v @ rev (takeWhile isWhiteSpace (rev u))"
      unfolding v_def by (rule trimEnd_decomp)
    then have "hd u = c" using Cons by (metis hd_append2 list.sel(1) list.distinct(1))
    moreover have "u \<noteq> []" using dec Cons by auto
    then have "\<not> isWhiteSpace (hd u)" unfolding u_def by (rule hd_dropWhile)
    ultimately have "\<not> isWhiteSpace c" by simp
    then show ?thesis using Cons by simp
  qed
  have "trim v = rev (dropWhile isWhiteSpace (rev v))"
    unfolding trim_def d ..
  also have "\<dots> = rev (dropWhile isWhiteSpace (dropWhile isWhiteSpace (rev u)))"
    by (simp add: v_def)
  also have "\<dots> = v" by (simp add: v_def dropWhile_idem)
  finally show ?thesis unfolding tz .
qed

lemma clean_idem: "trim (collapseBlank (trim (collapseBlank s))) = trim (collapseBlank s)"
proof -
  have "collapseFrom 0 (collapseFrom 0 s) = collapseFrom 0 s" by (rule collapse_idem)
  then have "collapseFrom 0 (trim (collapseFrom 0 s)) = trim (collapseFrom 0 s)"
    by (rule collapse_trim_fixed)
  then show ?thesis by (simp add: collapseBlank_def trim_idem)
qed

lemma sanitize_trailing:
  "validateAndCleanContract (Some ''pragma solidity ^0.8.19;\<newline>contract '')
     = Inr ''// SPDX-License-Identifier: MIT\<newline>pragma solidity ^0.8.19;\<newline>contract''"
  by code_simp

lemma no_declaration_left:
  "\<not> hasDeclaration ''// SPDX-License-Identifier: MIT\<newline>pragma solidity ^0.8.19;\<newline>contract''"
  by code_simp

text \<open>
  Claim C8 as stated fails. The check for a declaration keyword comes before the white
  space is cleaned up, and the final \<open>trim\<close> can take the blank of the keyword away: for this
  input nothing is thrown although the returned text, after all steps, contains none of the
  three keywords.
\<close>

theorem check_before_whitespace_counterexample:
  "validateAndCleanContract (Some ''pragma solidity ^0.8.19;\<newline>contract '')
     = Inr ''// SPDX-License-Identifier: MIT\<newline>pragma solidity ^0.8.19;\<newline>contract'' \<and>
   \<not> hasDeclaration ''// SPDX-License-Identifier: MIT\<newline>pragma solidity ^0.8.19;\<newline>contract''"
  using sanitize_trailing no_declaration_left by (rule conjI)

text \<open>
  Claim C8, as the code behaves. \<open>validateAndCleanContract\<close> throws in two places only. The
  guard at its start throws for a value that is not a string and for the empty string. The
  check for a declaration keyword throws when the text after the pattern replacements, the
  loop over the lines and the insertion of license and pragma (before runs of blank lines
  are collapsed and the text is trimmed) contains none of \<open>contract \<close>, \<open>interface \<close>,
  \<open>library \<close>. For a string the function throws exactly when that text has no keyword
  (for the empty string it has none either); nothing else throws.
\<close>

theorem sanitize_fails_iff:
  "(isl (validateAndCleanContract (Some code)) \<longleftrightarrow>
      \<not> hasDeclaration (ensurePragma (ensureLicense (cleanLines code)))) \<and>
   (validateAndCleanContract (Some code) = Inl (Error ''Invalid contract code received from LLM'')
      \<longleftrightarrow> code = []) \<and>
   (validateAndCleanContract (Some code) =
      Inl (Error ''Generated code does not contain a valid Solidity contract'')
      \<longleftrightarrow> code \<noteq> [] \<and> \<not> hasDeclaration (ensurePragma (ensureLicense (cleanLines code)))) \<and>
   validateAndCleanContract None = Inl (Error ''Invalid contract code received from LLM'')"
proof (cases "code = []")
  case True
  then show ?thesis
    using sanitize_empty by (simp add: validateAndCleanContract_def)
next
  case False
  then show ?thesis
    by (simp add: validateAndCleanContract_def Let_def)
qed

theorem sanitize_fails_iff_witness:
  "isl (validateAndCleanContract (Some ''Sorry, I cannot help.'')) \<and>
   \<not> isl (validateAndCleanContract (Some ''pragma solidity ^0.8.19;\<newline>contract A {\<newline>}''))"
proof -
  have h1: "\<not> hasDeclaration (ensurePragma (ensureLicense (cleanLines ''Sorry, I cannot help.'')))"
    by code_simp
  have h2: "hasDeclaration (ensurePragma (ensureLicense (cleanLines ''pragma solidity ^0.8.19;\<newline>contract A {\<newline>}'')))"
    by code_simp
  from sanitize_fails_iff[of "''Sorry, I cannot help.''"]
    sanitize_fails_iff[of "''pragma solidity ^0.8.19;\<newline>contract A {\<newline>}''"] h1 h2
  show ?thesis by blast
qed

lemma sanitize_joined:
  "validateAndCleanContract (Some ''contract A {\<newline>//SPDX-License-Here is:Identifier\<newline>}'')
     = Inr ''contract A {\<newline>//SPDX-License-Identifier\<newline>pragma solidity ^0.8.19;\<newline>}''"
  by code_simp

text \<open>
  Claim C6 as stated fails. The license is looked for in the text left by the pattern
  replacements, not in the input: this input contains no \<open>SPDX-License-Identifier\<close>, the
  deletion of \<open>Here is:\<close> produces one, and no default header is prepended.
\<close>

theorem license_after_deletion_counterexample:
  "\<not> includesStr ''contract A {\<newline>//SPDX-License-Here is:Identifier\<newline>}'' SPDX \<and>
   validateAndCleanContract (Some ''contract A {\<newline>//SPDX-License-Here is:Identifier\<newline>}'')
     = Inr ''contract A {\<newline>//SPDX-License-Identifier\<newline>pragma solidity ^0.8.19;\<newline>}'' \<and>
   \<not> includesStr ''contract A {\<newline>//SPDX-License-Identifier\<newline>pragma solidity ^0.8.19;\<newline>}''
         defaultLicense"
proof -
  have a: "\<not> includesStr ''contract A {\<newline>//SPDX-License-Here is:Identifier\<newline>}'' SPDX"
    by code_simp
  have b: "\<not> includesStr ''contract A {\<newline>//SPDX-License-Identifier\<newline>pragma solidity ^0.8.19;\<newline>}''
         defaultLicense"
    by code_simp
  show ?thesis using a sanitize_joined b by (intro conjI)
qed

text \<open>
  Claim C6, with the text after the pattern replacements and the loop over the lines
  (\<open>cleanLines\<close>) in the place of the input. When \<open>validateAndCleanContract\<close> returns a text:
  if \<open>cleanLines\<close> has no license identifier, the result starts with the default license
  line and the identifier occurs exactly once in it; if \<open>cleanLines\<close> has no pragma, the
  pragma occurs exactly once in the result, and the default pragma line was inserted
  directly behind the first line that contains the license identifier; if both are
  missing the result starts with the default license line followed by the default pragma
  line; and a license identifier or a pragma that is present occurs in the result as often
  as in \<open>cleanLines\<close>, so none is added.
\<close>

theorem license_and_pragma_once:
  assumes "validateAndCleanContract (Some code) = Inr r"
  shows
    "(\<not> includesStr (cleanLines code) SPDX \<longrightarrow>
        (\<exists>rest. r = defaultLicense @ NL # rest) \<and> count_occ SPDX r = 1) \<and>
     (\<not> includesStr (cleanLines code) PRAGMA \<longrightarrow>
        count_occ PRAGMA r = 1 \<and>
        (\<exists>i. i < length (split_nl (ensureLicense (cleanLines code))) \<and>
           includesStr (split_nl (ensureLicense (cleanLines code)) ! i) SPDX \<and>
           (\<forall>j<i. \<not> includesStr (split_nl (ensureLicense (cleanLines code)) ! j) SPDX) \<and>
           split_nl (ensurePragma (ensureLicense (cleanLines code))) =
             take (Suc i) (split_nl (ensureLicense (cleanLines code))) @ [defaultPragma] @
             drop (Suc i) (split_nl (ensureLicense (cleanLines code))))) \<and>
     (\<not> includesStr (cleanLines code) SPDX \<and> \<not> includesStr (cleanLines code) PRAGMA \<longrightarrow>
        (\<exists>rest. r = defaultLicense @ NL # defaultPragma @ NL # rest)) \<and>
     (includesStr (cleanLines code) SPDX \<longrightarrow> count_occ SPDX r = count_occ SPDX (cleanLines code)) \<and>
     (includesStr (cleanLines code) PRAGMA \<longrightarrow> count_occ PRAGMA r = count_occ PRAGMA (cleanLines code))"
proof -
  define t where "t = cleanLines code"
  define t5 where "t5 = ensurePragma (ensureLicense t)"
  have r: "r = trim (collapseBlank t5)" and decl: "hasDeclaration t5"
    using assms unfolding sanitize_result t5_def t_def by simp_all
  have cs: "count_occ SPDX r = count_occ SPDX t5"
    unfolding r by (rule count_occ_clean[OF NL_notin_SPDX(2,1,3,4)])
  have cp: "count_occ PRAGMA r = count_occ PRAGMA t5"
    unfolding r by (rule count_occ_clean[OF NL_notin_PRAGMA(2,1,3,4)])
  have ws_NL: "isWhiteSpace NL" by (simp add: NL_def isWhiteSpace_def)
  have A: "\<exists>rest. r = defaultLicense @ NL # rest" if no: "\<not> includesStr t SPDX"
  proof -
    obtain z where z: "t5 = defaultLicense @ NL # z" and c: "\<exists>c\<in>set z. \<not> isWhiteSpace c"
    proof (cases "includesStr t PRAGMA")
      case True
      then have "hd PRAGMA \<in> set t" using NL_notin_PRAGMA(2) by (intro includes_has_char[of t PRAGMA]) simp_all
      then have "\<exists>c\<in>set t. \<not> isWhiteSpace c" using NL_notin_PRAGMA(3) by blast
      moreover have "t5 = defaultLicense @ NL # t"
        unfolding t5_def license_prepended[OF no] using True by simp
      ultimately show ?thesis using that by blast
    next
      case False
      have "hd defaultPragma \<in> set (defaultPragma @ NL # t)" using license_facts(6) by simp
      then have "\<exists>c\<in>set (defaultPragma @ NL # t). \<not> isWhiteSpace c" using license_facts(7) by blast
      moreover have "t5 = defaultLicense @ NL # defaultPragma @ NL # t"
        unfolding t5_def license_prepended[OF no] using False by simp
      ultimately show ?thesis using that by blast
    qed
    from c obtain c where c: "c \<in> set z" "\<not> isWhiteSpace c" by blast
    then have "c \<noteq> NL" using ws_NL by auto
    then have cx: "c \<in> set (collapseFrom 1 z)" using c(1) by (intro collapse_keeps)
    have "collapseBlank t5 = defaultLicense @ NL # collapseFrom 1 z"
      unfolding z collapseBlank_def by (rule collapse_prefix[OF license_facts(1,2)])
    then have "r = trim (defaultLicense @ NL # collapseFrom 1 z)" unfolding r by simp
    also have "\<dots> = defaultLicense @ rev (dropWhile isWhiteSpace (rev (NL # collapseFrom 1 z)))"
      using cx c(2) by (intro trim_keeps_prefix[OF license_facts(2,3)]) auto
    also have "rev (dropWhile isWhiteSpace (rev (NL # collapseFrom 1 z))) =
                 [NL] @ rev (dropWhile isWhiteSpace (rev (collapseFrom 1 z)))"
      using trimEnd_append[of "collapseFrom 1 z" isWhiteSpace "[NL]"] cx c(2) by auto
    finally show ?thesis by simp
  qed
  have B: "\<exists>rest. r = defaultLicense @ NL # defaultPragma @ NL # rest"
    if no: "\<not> includesStr t SPDX" and nop: "\<not> includesStr t PRAGMA"
  proof -
    have t5: "t5 = defaultLicense @ NL # defaultPragma @ NL # t"
      unfolding t5_def license_prepended[OF no] using nop by simp
    from declaration_in_tail[OF decl[unfolded t5]] obtain c where c: "c \<in> set t" "\<not> isWhiteSpace c"
      by blast
    then have "c \<noteq> NL" using ws_NL by auto
    then have cx: "c \<in> set (collapseFrom 1 t)" using c(1) by (intro collapse_keeps)
    have "collapseBlank t5 = defaultLicense @ NL # collapseFrom 1 (defaultPragma @ NL # t)"
      unfolding t5 collapseBlank_def by (rule collapse_prefix[OF license_facts(1,2)])
    also have "collapseFrom 1 (defaultPragma @ NL # t) = defaultPragma @ NL # collapseFrom 1 t"
      by (rule collapse_prefix[OF license_facts(5,6)])
    finally have "r = trim (defaultLicense @ (NL # defaultPragma @ [NL]) @ collapseFrom 1 t)"
      unfolding r by simp
    also have "\<dots> = defaultLicense @
        rev (dropWhile isWhiteSpace (rev ((NL # defaultPragma @ [NL]) @ collapseFrom 1 t)))"
      using cx c(2) by (intro trim_keeps_prefix[OF license_facts(2,3)]) auto
    also have "rev (dropWhile isWhiteSpace (rev ((NL # defaultPragma @ [NL]) @ collapseFrom 1 t))) =
        (NL # defaultPragma @ [NL]) @ rev (dropWhile isWhiteSpace (rev (collapseFrom 1 t)))"
      using cx c(2) by (intro trimEnd_append) auto
    finally show ?thesis by simp
  qed
  have C: "\<exists>i. i < length (split_nl (ensureLicense t)) \<and>
           includesStr (split_nl (ensureLicense t) ! i) SPDX \<and>
           (\<forall>j<i. \<not> includesStr (split_nl (ensureLicense t) ! j) SPDX) \<and>
           split_nl (ensurePragma (ensureLicense t)) =
             take (Suc i) (split_nl (ensureLicense t)) @ [defaultPragma] @
             drop (Suc i) (split_nl (ensureLicense t))"
    if nop: "\<not> includesStr t PRAGMA"
  proof -
    have "count_occ PRAGMA (ensureLicense t) = count_occ PRAGMA t"
      using ensureLicense_count[OF NL_notin_PRAGMA(2,1), of t] by (auto simp: default_counts)
    then have "\<not> includesStr (ensureLicense t) PRAGMA" using nop by (metis count_occ_pos)
    then show ?thesis by (rule pragma_position[OF _ ensureLicense_includes])
  qed
  show ?thesis
    using A B C cs cp cleaned_counts[of t] unfolding t5_def[symmetric] t_def[symmetric]
    by (simp add: t5_def)
qed

lemma sanitize_bare:
  "validateAndCleanContract (Some ''contract A {\<newline>}'')
     = Inr ''// SPDX-License-Identifier: MIT\<newline>pragma solidity ^0.8.19;\<newline>contract A {\<newline>}''"
  by code_simp

lemma sanitize_complete:
  "validateAndCleanContract (Some ''// SPDX-License-Identifier: GPL-3.0\<newline>pragma solidity ^0.8.0;\<newline>contract A {\<newline>}'')
     = Inr ''// SPDX-License-Identifier: GPL-3.0\<newline>pragma solidity ^0.8.0;\<newline>contract A {\<newline>}''"
  by code_simp

theorem license_and_pragma_once_witness:
  "count_occ SPDX ''// SPDX-License-Identifier: MIT\<newline>pragma solidity ^0.8.19;\<newline>contract A {\<newline>}'' = 1 \<and>
   count_occ PRAGMA ''// SPDX-License-Identifier: MIT\<newline>pragma solidity ^0.8.19;\<newline>contract A {\<newline>}'' = 1 \<and>
   count_occ SPDX ''// SPDX-License-Identifier: GPL-3.0\<newline>pragma solidity ^0.8.0;\<newline>contract A {\<newline>}'' = 1 \<and>
   count_occ PRAGMA ''// SPDX-License-Identifier: GPL-3.0\<newline>pragma solidity ^0.8.0;\<newline>contract A {\<newline>}'' = 1"
proof -
  let ?x1 = "''contract A {\<newline>}''"
  let ?x2 = "''// SPDX-License-Identifier: GPL-3.0\<newline>pragma solidity ^0.8.0;\<newline>contract A {\<newline>}''"
  have c1: "cleanLines ?x1 = ?x1" by code_simp
  have c2: "cleanLines ?x2 = ?x2" by code_simp
  have h1: "\<not> includesStr (cleanLines ?x1) SPDX" "\<not> includesStr (cleanLines ?x1) PRAGMA"
    unfolding c1 by code_simp+
  have h2: "includesStr (cleanLines ?x2) SPDX" "includesStr (cleanLines ?x2) PRAGMA"
    unfolding c2 by code_simp+
  have n2: "count_occ SPDX (cleanLines ?x2) = 1" "count_occ PRAGMA (cleanLines ?x2) = 1"
    unfolding c2 by code_simp+
  from license_and_pragma_once[OF sanitize_bare] h1
    license_and_pragma_once[OF sanitize_complete] h2 n2
  show ?thesis by simp
qed

lemma sanitize_cascade_1:
  "validateAndCleanContract (Some ''contract A {\<newline>// Here Here is:is:\<newline>}'')
     = Inr ''// SPDX-License-Identifier: MIT\<newline>pragma solidity ^0.8.19;\<newline>contract A {\<newline>// Here is:\<newline>}''"
  by code_simp

lemma sanitize_cascade_2:
  "validateAndCleanContract (Some ''// SPDX-License-Identifier: MIT\<newline>pragma solidity ^0.8.19;\<newline>contract A {\<newline>// Here is:\<newline>}'')
     = Inr ''// SPDX-License-Identifier: MIT\<newline>pragma solidity ^0.8.19;\<newline>contract A {\<newline>// \<newline>}''"
  by code_simp

lemma sanitize_trailing_2:
  "validateAndCleanContract (Some ''// SPDX-License-Identifier: MIT\<newline>pragma solidity ^0.8.19;\<newline>contract'')
     = Inl (Error ''Generated code does not contain a valid Solidity contract'')"
  by code_simp

text \<open>
  Claim C7 as stated fails, in two ways. A second run can delete more: the first run
  turns \<open>Here Here is:is:\<close> into \<open>Here is:\<close>, which the second run deletes. And a second
  run can throw: the first run trims the blank of the only keyword away.
\<close>

theorem sanitize_twice_counterexample:
  "hasDeclaration ''contract A {\<newline>// Here Here is:is:\<newline>}'' \<and>
   validateAndCleanContract (Some ''contract A {\<newline>// Here Here is:is:\<newline>}'')
     = Inr ''// SPDX-License-Identifier: MIT\<newline>pragma solidity ^0.8.19;\<newline>contract A {\<newline>// Here is:\<newline>}'' \<and>
   validateAndCleanContract (Some ''// SPDX-License-Identifier: MIT\<newline>pragma solidity ^0.8.19;\<newline>contract A {\<newline>// Here is:\<newline>}'')
     = Inr ''// SPDX-License-Identifier: MIT\<newline>pragma solidity ^0.8.19;\<newline>contract A {\<newline>// \<newline>}'' \<and>
   hasDeclaration ''pragma solidity ^0.8.19;\<newline>contract '' \<and>
   validateAndCleanContract (Some ''pragma solidity ^0.8.19;\<newline>contract '')
     = Inr ''// SPDX-License-Identifier: MIT\<newline>pragma solidity ^0.8.19;\<newline>contract'' \<and>
   validateAndCleanContract (Some ''// SPDX-License-Identifier: MIT\<newline>pragma solidity ^0.8.19;\<newline>contract'')
     = Inl (Error ''Generated code does not contain a valid Solidity contract'')"
proof -
  have a: "hasDeclaration ''contract A {\<newline>// Here Here is:is:\<newline>}''" by code_simp
  have b: "hasDeclaration ''pragma solidity ^0.8.19;\<newline>contract ''" by code_simp
  show ?thesis
    using a sanitize_cascade_1 sanitize_cascade_2 b sanitize_trailing sanitize_trailing_2
    by (intro conjI)
qed

subsection \<open>A second run of the sanitizer\<close>

lemma isSolidityLine_Nil: "\<not> isSolidityLine [] False"
  by (simp add: isSolidityLine_def matchesDeclaration_def startsWith_def)

lemma lineStep_alt:
  "lineStep l s =
     (if keepsLine (foundSolidityStart s) l
      then (if breaksAt l (inContract s, contractDepth s) then Break else Continue)
             (s\<lparr>foundSolidityStart := True,
                inContract := fst (declStep l (inContract s, contractDepth s)),
                contractDepth := snd (declStep l (inContract s, contractDepth s)),
                processedLines := processedLines s @ [l]\<rparr>)
      else Continue s)"
proof (cases "foundSolidityStart s")
  case True
  then show ?thesis
    by (simp add: lineStep_def keepsLine_def breaksAt_def declStep_def Let_def)
next
  case False
  show ?thesis
  proof (cases "trim l = []")
    case True
    then show ?thesis using False isSolidityLine_Nil
      by (simp add: lineStep_def keepsLine_def Let_def)
  next
    case n: False
    then show ?thesis using False
      by (simp add: lineStep_def keepsLine_def breaksAt_def declStep_def Let_def)
  qed
qed

lemma processLoop_pushed:
  "processedLines (processLoop A s) =
     processedLines s @ pushedLines (foundSolidityStart s) (inContract s, contractDepth s) A"
proof (induction A arbitrary: s)
  case Nil
  then show ?case by simp
next
  case (Cons l A)
  show ?case
  proof (cases "keepsLine (foundSolidityStart s) l")
    case False
    then show ?thesis using Cons.IH[of s] by (simp add: lineStep_alt)
  next
    case True
    then show ?thesis using Cons.IH by (simp add: lineStep_alt)
  qed
qed

lemma cleanLines_pushed:
  "cleanLines code = join_nl (pushedLines False (False, 0) (split_nl (stripText code)))"
  by (simp add: cleanLines_def processLoop_pushed initialState_def)

lemma pushed_length: "length (pushedLines f c A) \<le> length A"
  by (induction A arbitrary: f c) (auto simp: le_SucI)

lemma pushed_subset: "x \<in> set (pushedLines f c A) \<Longrightarrow> x \<in> set A"
  by (induction f c A rule: pushedLines.induct) (auto split: if_splits)

lemma kept_Cons:
  "pushedLines f c (l # A) = l # A \<longleftrightarrow>
     keepsLine f l \<and> (if breaksAt l c then A = [] else pushedLines True (declStep l c) A = A)"
proof (cases "keepsLine f l")
  case True
  then show ?thesis by auto
next
  case False
  have "length (pushedLines f c A) \<le> length A" by (rule pushed_length)
  then have "pushedLines f c A \<noteq> l # A" by auto
  then show ?thesis using False by simp
qed

lemma pushed_idem: "pushedLines f c (pushedLines f c A) = pushedLines f c A"
  by (induction A arbitrary: f c) auto

lemma isSolidityLine_mono: "isSolidityLine t False \<Longrightarrow> isSolidityLine t True"
  by (auto simp: isSolidityLine_def)

lemma keepsLine_mono: "keepsLine False l \<Longrightarrow> keepsLine True l"
  by (auto simp: keepsLine_def isSolidityLine_mono)

lemma kept_mono: "pushedLines f c A = A \<Longrightarrow> pushedLines True c A = A"
proof (cases A)
  case Nil
  then show ?thesis by simp
next
  case (Cons l A')
  assume "pushedLines f c A = A"
  then have "keepsLine f l \<and> (if breaksAt l c then A' = [] else pushedLines True (declStep l c) A' = A')"
    unfolding Cons kept_Cons .
  moreover have "keepsLine f l \<Longrightarrow> keepsLine True l"
    using keepsLine_mono by (cases f) auto
  ultimately show ?thesis unfolding Cons kept_Cons by simp
qed

lemma insert_mid:
  assumes z: "\<And>f. keepsLine f z" "\<And>c. declStep z c = c" "\<And>c. \<not> breaksAt z c"
  shows "pushedLines f c (A @ B) = A @ B \<Longrightarrow> B \<noteq> [] \<Longrightarrow> pushedLines f c (A @ z # B) = A @ z # B"
proof (induction A arbitrary: f c)
  case Nil
  then show ?case using z kept_mono[of f c B] by simp
next
  case (Cons a A)
  from Cons.prems(1) have k: "keepsLine f a"
    and r: "if breaksAt a c then A @ B = [] else pushedLines True (declStep a c) (A @ B) = A @ B"
    unfolding append_Cons kept_Cons by simp_all
  from r Cons.prems(2) have nb: "\<not> breaksAt a c" by (auto split: if_splits)
  with r have "pushedLines True (declStep a c) (A @ B) = A @ B" by simp
  from Cons.IH[OF this Cons.prems(2)] k nb show ?case by simp
qed

lemma insert_end:
  assumes z: "\<And>f. keepsLine f z" "\<And>c. declStep z c = c" "\<And>c. \<not> breaksAt z c"
  shows "pushedLines f c A = A \<Longrightarrow>
         pushedLines f c (A @ [z]) = A @ [z] \<or> pushedLines f c (A @ [z]) = A"
proof (induction A arbitrary: f c)
  case Nil
  then show ?case using z by simp
next
  case (Cons a A)
  from Cons.prems(1) have k: "keepsLine f a"
    and r: "if breaksAt a c then A = [] else pushedLines True (declStep a c) A = A"
    unfolding kept_Cons by simp_all
  show ?case
  proof (cases "breaksAt a c")
    case True
    then show ?thesis using k r by simp
  next
    case False
    with r have "pushedLines True (declStep a c) A = A" by simp
    from Cons.IH[OF this] k False show ?thesis by simp
  qed
qed

lemma NL_white: "isWhiteSpace NL"
  by (simp add: isWhiteSpace_def NL_def)

lemma dropWhile_all: "\<forall>c\<in>set l. P c \<Longrightarrow> dropWhile P l = []"
  by (induction l) auto

lemma trim_Cons_white: "isWhiteSpace w \<Longrightarrow> trim (w # l) = trim l"
  by (simp add: trim_def)

lemma trim_snoc_white:
  assumes "isWhiteSpace w"
  shows "trim (l @ [w]) = trim l"
proof (cases "\<forall>c\<in>set l. isWhiteSpace c")
  case True
  then have d: "dropWhile isWhiteSpace l = []" "dropWhile isWhiteSpace (l @ [w]) = []"
    using assms by (auto intro!: dropWhile_all)
  show ?thesis unfolding trim_def d by simp
next
  case False
  then obtain x where "x \<in> set l" "\<not> isWhiteSpace x" by blast
  then have "dropWhile isWhiteSpace (l @ [w]) = dropWhile isWhiteSpace l @ [w]"
    by (rule dropWhile_append1)
  then show ?thesis using assms by (simp add: trim_def)
qed

lemma trim_Nil [simp]: "trim [] = []"
  by (simp add: trim_def)

lemma trim_empty_iff: "trim l = [] \<longleftrightarrow> (\<forall>c\<in>set l. isWhiteSpace c)"
proof
  assume "trim l = []"
  then have "dropWhile isWhiteSpace (rev (dropWhile isWhiteSpace l)) = []"
    by (simp add: trim_def)
  then have "\<forall>c\<in>set (dropWhile isWhiteSpace l). isWhiteSpace c"
    by (simp add: dropWhile_eq_Nil_conv)
  then have "dropWhile isWhiteSpace l = []"
    by (metis hd_dropWhile list.set_sel(1))
  then show "\<forall>c\<in>set l. isWhiteSpace c" by (simp add: dropWhile_eq_Nil_conv)
next
  assume "\<forall>c\<in>set l. isWhiteSpace c"
  then have d: "dropWhile isWhiteSpace l = []" by (rule dropWhile_all)
  show "trim l = []" unfolding trim_def d by simp
qed

lemma filter_dropWhile:
  "(\<And>x. P x \<Longrightarrow> \<not> Q x) \<Longrightarrow> filter Q (dropWhile P xs) = filter Q xs"
  by (induction xs) auto

lemma countChar_trim:
  assumes "\<not> isWhiteSpace c"
  shows "countChar c (trim l) = countChar c l"
proof -
  have a: "\<And>xs. filter (\<lambda>x. x = c) (dropWhile isWhiteSpace xs) = filter (\<lambda>x. x = c) xs"
    using assms by (intro filter_dropWhile) auto
  have "filter (\<lambda>x. x = c) (trim l) = filter (\<lambda>x. x = c) l"
    unfolding trim_def rev_filter[symmetric] a by (simp add: rev_filter a)
  then show ?thesis by (simp add: countChar_def)
qed

lemma brace_not_white: "\<not> isWhiteSpace (CHR ''{'')" "\<not> isWhiteSpace (CHR ''}'')"
  by (simp_all add: isWhiteSpace_def)

lemma declStep_trim: "declStep l c = declStep (trim l) c"
  by (simp add: declStep_def Let_def countChar_trim brace_not_white trim_idem)

lemma breaksAt_trim: "breaksAt l c = breaksAt (trim l) c"
  using declStep_trim[of l c] by (simp add: breaksAt_def trim_idem)

lemma keepsLine_trim: "keepsLine f l = keepsLine f (trim l)"
  by (simp add: keepsLine_def trim_idem)

lemma blank_neutral:
  assumes "trim z = []"
  shows "keepsLine True z" "declStep z c = c" "\<not> breaksAt z c"
proof -
  show "keepsLine True z" using assms by (simp add: keepsLine_def isSolidityLine_def)
  have m: "\<not> matchesDeclaration []" by (simp add: matchesDeclaration_def startsWith_def)
  have d: "declStep [] c = c" using m by (cases c) (simp add: declStep_def countChar_def)
  show "declStep z c = c" using declStep_trim[of z c] assms d by simp
  show "\<not> breaksAt z c" using breaksAt_trim[of z c] assms by (simp add: breaksAt_def)
qed

lemma defaults_neutral:
  "keepsLine f defaultLicense" "declStep defaultLicense c = c" "\<not> breaksAt defaultLicense c"
  "keepsLine f defaultPragma" "declStep defaultPragma c = c" "\<not> breaksAt defaultPragma c"
proof -
  have t: "trim defaultLicense = defaultLicense" "trim defaultPragma = defaultPragma"
    by (simp_all add: trim_def defaultLicense_def defaultPragma_def isWhiteSpace_def)
  have s: "isSolidityLine defaultLicense f" "isSolidityLine defaultPragma f"
    by (simp_all add: isSolidityLine_def defaultLicense_def defaultPragma_def startsWith_def)
  show "keepsLine f defaultLicense" "keepsLine f defaultPragma"
    using s by (simp_all add: keepsLine_def t)
  have m: "\<not> matchesDeclaration defaultLicense" "\<not> matchesDeclaration defaultPragma"
    by (simp_all add: matchesDeclaration_def defaultLicense_def defaultPragma_def startsWith_def)
  have k: "countChar (CHR ''{'') defaultLicense = 0" "countChar (CHR ''}'') defaultLicense = 0"
    "countChar (CHR ''{'') defaultPragma = 0" "countChar (CHR ''}'') defaultPragma = 0"
    by (simp_all add: countChar_def defaultLicense_def defaultPragma_def)
  show "declStep defaultLicense c = c" "declStep defaultPragma c = c"
    using m k by (cases c; simp add: declStep_def t)+
  have i: "\<not> includesStr defaultLicense ''}''" "\<not> includesStr defaultPragma ''}''"
    by (simp_all add: defaultLicense_def defaultPragma_def startsWith_def)
  show "\<not> breaksAt defaultLicense c" "\<not> breaksAt defaultPragma c"
    using i by (simp_all add: breaksAt_def t)
qed

lemma simLines_Nil: "simLines [] B \<Longrightarrow> B = []"
  by (erule simLines.cases) simp_all

lemma kept_sim:
  "simLines A B \<Longrightarrow> pushedLines f c A = A \<Longrightarrow> pushedLines f c B = B"
proof (induction A B arbitrary: f c rule: simLines.induct)
  case simNil
  then show ?case by simp
next
  case (simCons l l' ls ls')
  from simCons.prems have k: "keepsLine f l"
    and r: "if breaksAt l c then ls = [] else pushedLines True (declStep l c) ls = ls"
    unfolding kept_Cons by simp_all
  have e: "keepsLine f l' = keepsLine f l" "breaksAt l' c = breaksAt l c" "declStep l' c = declStep l c"
    using keepsLine_trim[of f l] keepsLine_trim[of f l'] breaksAt_trim[of l c] breaksAt_trim[of l' c]
      declStep_trim[of l c] declStep_trim[of l' c] simCons.hyps(1) by simp_all
  show ?case
  proof (cases "breaksAt l c")
    case True
    with r have "ls = []" by simp
    then have "ls' = []" using simCons.hyps(3) simLines_Nil by simp
    then show ?thesis unfolding kept_Cons e using k True by simp
  next
    case False
    with r have "pushedLines True (declStep l c) ls = ls" by simp
    from simCons.IH[OF this] show ?thesis unfolding kept_Cons e using k False by simp
  qed
next
  case (simDrop l ls ls')
  from simDrop.prems have k: "keepsLine f l"
    and r: "if breaksAt l c then ls = [] else pushedLines True (declStep l c) ls = ls"
    unfolding kept_Cons by simp_all
  have "f"
  proof (rule ccontr)
    assume "\<not> f"
    then have "isSolidityLine [] False" using k simDrop.hyps(1) by (simp add: keepsLine_def)
    then show False using isSolidityLine_Nil by simp
  qed
  from r blank_neutral(2,3)[OF simDrop.hyps(1), of c]
  have "pushedLines True c ls = ls" by simp
  from simDrop.IH[OF this] have "pushedLines True c ls' = ls'" .
  then show ?case using \<open>f\<close> by simp
qed

lemma simLines_refl: "simLines A A"
  by (induction A) (auto intro: simLines.intros)

lemma simLines_trans: "simLines A B \<Longrightarrow> simLines B C \<Longrightarrow> simLines A C"
proof (induction A B arbitrary: C rule: simLines.induct)
  case simNil
  then show ?case by simp
next
  case (simCons l l' ls ls')
  from simCons.prems show ?case
  proof (cases rule: simLines.cases)
    case (simCons m ms)
    then show ?thesis
      using simCons.hyps simCons.IH[of ms] by (auto intro: simLines.simCons)
  next
    case simDrop
    then show ?thesis
      using simCons.hyps simCons.IH[of C] by (auto intro: simLines.simDrop)
  qed
next
  case (simDrop l ls ls')
  then show ?case by (auto intro: simLines.simDrop)
qed

lemma simLines_append: "simLines A B \<Longrightarrow> simLines C D \<Longrightarrow> simLines (A @ C) (B @ D)"
  by (induction A B rule: simLines.induct) (auto intro: simLines.intros)

lemma sim_lead:
  assumes "isWhiteSpace c"
  shows "simLines (split_nl (c # cs)) (split_nl cs)"
proof (cases "c = NL")
  case True
  then show ?thesis by (auto intro: simLines.simDrop simLines_refl)
next
  case False
  obtain h t where x: "split_nl cs = h # t"
    using split_nl_nonempty[of cs] by (cases "split_nl cs") auto
  have "simLines ((c # h) # t) (h # t)"
    using assms by (intro simLines.simCons simLines_refl) (simp_all add: trim_Cons_white)
  then show ?thesis using False x by simp
qed

lemma sim_dropWhile: "simLines (split_nl s) (split_nl (dropWhile isWhiteSpace s))"
proof (induction s)
  case Nil
  then show ?case by (simp add: simLines_refl)
next
  case (Cons c cs)
  show ?case
  proof (cases "isWhiteSpace c")
    case True
    then show ?thesis using simLines_trans[OF sim_lead[OF True, of cs] Cons.IH] by simp
  next
    case False
    then show ?thesis by (simp add: simLines_refl del: split_nl.simps)
  qed
qed

lemma split_nl_snoc:
  "split_nl (s @ [c]) =
     (if c = NL then split_nl s @ [[]]
      else butlast (split_nl s) @ [last (split_nl s) @ [c]])"
proof (induction s)
  case Nil
  then show ?case by simp
next
  case (Cons d s)
  obtain h t where x: "split_nl s = h # t"
    using split_nl_nonempty[of s] by (cases "split_nl s") auto
  show ?case
  proof (cases "c = NL")
    case True
    then show ?thesis using Cons x by (cases "d = NL") simp_all
  next
    case False
    then show ?thesis using Cons x by (cases "d = NL"; cases t) simp_all
  qed
qed

lemma sim_trail:
  assumes "isWhiteSpace c"
  shows "simLines (split_nl (s @ [c])) (split_nl s)"
proof (cases "c = NL")
  case True
  have "simLines (split_nl s @ [[]]) (split_nl s @ [])"
    by (intro simLines_append simLines_refl) (auto intro: simLines.intros)
  then show ?thesis using True by (simp add: split_nl_snoc)
next
  case False
  have x: "split_nl s = butlast (split_nl s) @ [last (split_nl s)]"
    using split_nl_nonempty[of s] by simp
  have "simLines (butlast (split_nl s) @ [last (split_nl s) @ [c]])
                 (butlast (split_nl s) @ [last (split_nl s)])"
    using assms
    by (intro simLines_append simLines_refl simLines.simCons simLines.simNil)
       (simp_all add: trim_snoc_white)
  then show ?thesis using False x by (simp add: split_nl_snoc)
qed

lemma sim_white_suffix:
  "\<forall>c\<in>set w. isWhiteSpace c \<Longrightarrow> simLines (split_nl (a @ w)) (split_nl a)"
proof (induction w rule: rev_induct)
  case Nil
  then show ?case by (simp add: simLines_refl)
next
  case (snoc c w)
  then have "simLines (split_nl ((a @ w) @ [c])) (split_nl (a @ w))"
    by (intro sim_trail) simp
  then show ?case using snoc simLines_trans by fastforce
qed

lemma sim_trimEnd: "simLines (split_nl s) (split_nl (rev (dropWhile isWhiteSpace (rev s))))"
proof -
  have "\<forall>c\<in>set (rev (takeWhile isWhiteSpace (rev s))). isWhiteSpace c"
    by (auto dest: set_takeWhileD)
  from sim_white_suffix[OF this, of "rev (dropWhile isWhiteSpace (rev s))"]
  show ?thesis using trimEnd_decomp[of s isWhiteSpace] by simp
qed

lemma sim_collapse_aux:
  "(case s of NL' # cs \<Rightarrow>
       if NL' = NL \<and> 2 \<le> k
       then simLines (tl (split_nl s)) (split_nl (collapseFrom k s))
       else hd (split_nl (collapseFrom k s)) = hd (split_nl s) \<and>
            simLines (tl (split_nl s)) (tl (split_nl (collapseFrom k s)))
     | [] \<Rightarrow> hd (split_nl (collapseFrom k s)) = hd (split_nl s) \<and>
            simLines (tl (split_nl s)) (tl (split_nl (collapseFrom k s)))) \<and>
   simLines (split_nl s) (split_nl (collapseFrom k s))"
proof (induction s arbitrary: k)
  case Nil
  then show ?case by (simp add: simLines_refl simLines.simNil)
next
  case (Cons c cs)
  note A = Cons.IH[THEN conjunct2]
  show ?case
  proof (cases "c = NL")
    case True
    show ?thesis
    proof (cases "2 \<le> k")
      case k: True
      then show ?thesis using True A[of k] by (auto intro: simLines.simDrop)
    next
      case False
      then have "k < 2" by simp
      then show ?thesis using True A[of "Suc k"]
        by (auto intro: simLines.simCons)
    qed
  next
    case False
    obtain h t where x: "split_nl cs = h # t"
      using split_nl_nonempty[of cs] by (cases "split_nl cs") auto
    obtain h' t' where x': "split_nl (collapseFrom 0 cs) = h' # t'"
      using split_nl_nonempty[of "collapseFrom 0 cs"] by (cases "split_nl (collapseFrom 0 cs)") auto
    have "hd (split_nl (collapseFrom 0 cs)) = hd (split_nl cs) \<and>
          simLines (tl (split_nl cs)) (tl (split_nl (collapseFrom 0 cs)))"
      using Cons.IH[of 0, THEN conjunct1] by (cases cs) (simp_all split: if_splits)
    then have "h' = h" "simLines t t'" using x x' by simp_all
    then show ?thesis using False x x' by (auto intro: simLines.simCons)
  qed
qed

lemma sim_collapse: "simLines (split_nl s) (split_nl (collapseFrom k s))"
  using sim_collapse_aux[where s = s and k = k] by simp

lemma sim_clean: "simLines (split_nl s) (split_nl (trim (collapseBlank s)))"
  unfolding trim_def collapseBlank_def
  by (meson simLines_trans sim_collapse sim_dropWhile sim_trimEnd)

lemma removeAll_no_match:
  "\<not> matchesIn ic pat prev s \<Longrightarrow> removeAll ic pat prev 0 s = s"
  by (induction s arbitrary: prev) (auto split: if_splits option.splits nat.splits)

lemma replaceEmpty_no_match: "\<not> testPattern p s \<Longrightarrow> replaceEmpty p s = s"
  by (simp add: testPattern_def replaceEmpty_def removeAll_no_match)

lemma foldl_replace_id:
  "\<forall>p\<in>set ps. replaceEmpty p s = s \<Longrightarrow>
   foldl (\<lambda>cleaned pattern. replaceEmpty pattern cleaned) s ps = s"
  by (induction ps) simp_all

lemma stripText_no_match:
  assumes "\<not> somePatternMatches s"
  shows "stripText s = s"
proof -
  have a: "\<forall>p\<in>set (fenceSolidity # fence # explanatoryPatterns). replaceEmpty p s = s"
    using assms by (auto simp: somePatternMatches_def list_ex_iff replaceEmpty_no_match)
  then have "replaceEmpty fenceSolidity s = s" "replaceEmpty fence s = s"
    "\<forall>p\<in>set explanatoryPatterns. replaceEmpty p s = s" by simp_all
  then show ?thesis by (simp add: stripText_def foldl_replace_id)
qed

lemma count_occ_trim:
  assumes "p \<noteq> []" and "\<not> isWhiteSpace (hd p)" and "\<not> isWhiteSpace (last p)"
  shows "count_occ p (trim l) = count_occ p l"
  unfolding trim_def
  by (simp add: count_occ_trimEnd[where P = isWhiteSpace, OF assms(1,3)]
        count_occ_dropWhile[where P = isWhiteSpace, OF assms(1,2)])

lemma includes_trim:
  assumes "p \<noteq> []" and "\<not> isWhiteSpace (hd p)" and "\<not> isWhiteSpace (last p)"
  shows "includesStr (trim l) p \<longleftrightarrow> includesStr l p"
  using count_occ_trim[OF assms, of l] by (simp add: count_occ_pos[symmetric])

lemma simLines_ConsE [consumes 1, case_names simCons simDrop]:
  assumes "simLines (a # A) Y"
    and "\<And>l' ls'. Y = l' # ls' \<Longrightarrow> trim a = trim l' \<Longrightarrow> length l' \<le> length a \<Longrightarrow> simLines A ls' \<Longrightarrow> R"
    and "trim a = [] \<Longrightarrow> simLines A Y \<Longrightarrow> R"
  shows R
  using assms(1)
proof (rule simLines.cases)
  assume "a # A = []" then show R by simp
next
  fix l l' ls ls'
  assume "a # A = l # ls" "Y = l' # ls'" "trim l = trim l'" "length l' \<le> length l" "simLines ls ls'"
  then show R using assms(2)[of l' ls'] by simp
next
  fix l ls ls'
  assume "a # A = l # ls" "Y = ls'" "trim l = []" "simLines ls ls'"
  then show R using assms(3) by simp
qed

lemma sim_last:
  "simLines (A @ [z]) Y \<Longrightarrow> trim z \<noteq> [] \<Longrightarrow>
   \<exists>U z'. Y = U @ [z'] \<and> trim z' = trim z \<and> length z' \<le> length z \<and> simLines A U"
proof (induction A arbitrary: Y)
  case Nil
  from Nil.prems(1) have "simLines (z # []) Y" by simp
  then show ?case
  proof (cases rule: simLines_ConsE)
    case (simCons l' ls')
    then have "ls' = []" using simLines_Nil by simp
    then show ?thesis using simCons by (auto intro: simLines.simNil)
  next
    case simDrop
    then show ?thesis using Nil.prems(2) by simp
  qed
next
  case (Cons a A)
  from Cons.prems(1) have "simLines (a # (A @ [z])) Y" by simp
  then show ?case
  proof (cases rule: simLines_ConsE)
    case (simCons l' ls')
    from Cons.IH[OF simCons(4) Cons.prems(2)] obtain U z' where
      u: "ls' = U @ [z']" "trim z' = trim z" "length z' \<le> length z" "simLines A U" by blast
    have "simLines (a # A) (l' # U)" using simCons u(4) by (auto intro: simLines.simCons)
    then show ?thesis using simCons(1) u by (intro exI[of _ "l' # U"] exI[of _ z']) simp
  next
    case simDrop
    from Cons.IH[OF simDrop(2) Cons.prems(2)] obtain U z' where
      u: "Y = U @ [z']" "trim z' = trim z" "length z' \<le> length z" "simLines A U" by blast
    have "simLines (a # A) U" using simDrop u(4) by (auto intro: simLines.simDrop)
    then show ?thesis using u by blast
  qed
qed

lemma sim_lastOnly:
  assumes t: "\<And>l l'. trim l = trim l' \<Longrightarrow> P l = P l'" and e: "\<And>l. trim l = [] \<Longrightarrow> \<not> P l"
  shows "simLines A U \<Longrightarrow> A \<noteq> [] \<Longrightarrow> P (last A) \<Longrightarrow> \<forall>l\<in>set (butlast A). \<not> P l \<Longrightarrow>
         U \<noteq> [] \<and> P (last U) \<and> (\<forall>l\<in>set (butlast U). \<not> P l)"
proof (induction A U rule: simLines.induct)
  case simNil
  then show ?case by simp
next
  case (simCons l l' ls ls')
  show ?case
  proof (cases "ls = []")
    case True
    then have "ls' = []" using simCons.hyps(3) simLines_Nil by simp
    then show ?thesis using simCons.prems True t[OF simCons.hyps(1)] by simp
  next
    case False
    then have "ls' \<noteq> [] \<and> P (last ls') \<and> (\<forall>l\<in>set (butlast ls'). \<not> P l)"
      using simCons.prems by (intro simCons.IH) simp_all
    moreover have "\<not> P l'" using simCons.prems False t[OF simCons.hyps(1)] by simp
    ultimately show ?thesis by simp
  qed
next
  case (simDrop l ls ls')
  have "ls \<noteq> []"
  proof
    assume "ls = []"
    then have "P l" using simDrop.prems by simp
    then show False using e[OF simDrop.hyps(1)] by simp
  qed
  then show ?case using simDrop.prems by (intro simDrop.IH) simp_all
qed

lemma findIndex_last:
  "U \<noteq> [] \<Longrightarrow> P (last U) \<Longrightarrow> \<forall>l\<in>set (butlast U). \<not> P l \<Longrightarrow>
   findIndex P U = Some (length U - 1)"
proof (induction U)
  case Nil
  then show ?case by simp
next
  case (Cons a U)
  show ?case
  proof (cases "U = []")
    case True
    then show ?thesis using Cons.prems by simp
  next
    case False
    then have "findIndex P U = Some (length U - 1)" using Cons.prems by (intro Cons.IH) simp_all
    moreover have "\<not> P a" using Cons.prems False by simp
    ultimately show ?thesis using False by (cases U) simp_all
  qed
qed

lemma join_nl_snoc: "A \<noteq> [] \<Longrightarrow> join_nl (A @ [z]) = join_nl A @ NL # z"
proof (induction A)
  case Nil
  then show ?case by simp
next
  case (Cons a A)
  then show ?case by (cases A) simp_all
qed

lemma dropWhile_length_eq: "length (dropWhile P xs) = length xs \<Longrightarrow> dropWhile P xs = xs"
proof (cases xs)
  case Nil
  then show ?thesis by simp
next
  case (Cons x xs')
  assume a: "length (dropWhile P xs) = length xs"
  have "length (dropWhile P xs') \<le> length xs'" by (rule length_dropWhile_le)
  then have "\<not> P x" using a Cons by (auto split: if_splits)
  then show ?thesis using Cons by simp
qed

lemma trim_short:
  assumes "trim z = d" and "length z \<le> length d"
  shows "z = d"
proof -
  let ?a = "dropWhile isWhiteSpace z"
  have l1: "length ?a \<le> length z" by (rule length_dropWhile_le)
  have l2: "length (dropWhile isWhiteSpace (rev ?a)) \<le> length ?a"
    using length_dropWhile_le[of isWhiteSpace "rev ?a"] by simp
  have "length d = length (dropWhile isWhiteSpace (rev ?a))"
    using assms(1) by (auto simp: trim_def)
  with l1 l2 assms(2) have e1: "length ?a = length z"
    and e2: "length (dropWhile isWhiteSpace (rev ?a)) = length (rev ?a)" by simp_all
  from dropWhile_length_eq[OF e1] dropWhile_length_eq[OF e2]
  have "trim z = z" by (simp add: trim_def)
  then show ?thesis using assms(1) by simp
qed

lemma license_line_respects:
  "trim l = trim l' \<Longrightarrow> includesStr l SPDX = includesStr l' SPDX"
  "trim l = [] \<Longrightarrow> \<not> includesStr l SPDX"
proof -
  assume "trim l = trim l'"
  then show "includesStr l SPDX = includesStr l' SPDX"
    using includes_trim[OF NL_notin_SPDX(2,3,4), of l] includes_trim[OF NL_notin_SPDX(2,3,4), of l']
    by simp
next
  assume "trim l = []"
  then show "\<not> includesStr l SPDX"
    using includes_trim[OF NL_notin_SPDX(2,3,4), of l] NL_notin_SPDX(2) by simp
qed

lemma trim_defaultPragma: "trim defaultPragma = defaultPragma" "defaultPragma \<noteq> []"
  by (simp_all add: trim_def defaultPragma_def isWhiteSpace_def)

lemma second_run:
  assumes P: "pushedLines False (False, 0) P = P" and nl: "\<forall>l\<in>set P. NL \<notin> set l"
    and c: "c = ensurePragma (ensureLicense (join_nl P))"
    and y: "y = trim (collapseBlank c)"
  shows "ensurePragma (ensureLicense (join_nl (pushedLines False (False, 0) (split_nl y)))) = y"
proof -
  define t where "t = join_nl P"
  define c1 where "c1 = ensureLicense t"
  define Q0 where "Q0 = split_nl c1"
  have c': "c = ensurePragma c1" by (simp add: c c1_def t_def)
  have s1: "includesStr c1 SPDX" unfolding c1_def by (rule ensureLicense_includes)
  have cnt: "0 < count_occ SPDX c" "0 < count_occ PRAGMA c"
    unfolding c t_def[symmetric] cleaned_counts by (auto simp: count_occ_pos)
  have cy: "count_occ SPDX y = count_occ SPDX c" "count_occ PRAGMA y = count_occ PRAGMA c"
    unfolding y
    by (rule count_occ_clean[OF NL_notin_SPDX(2,1,3,4)], rule count_occ_clean[OF NL_notin_PRAGMA(2,1,3,4)])
  have inc: "includesStr y SPDX" "includesStr y PRAGMA"
    using cnt cy by (simp_all add: count_occ_pos[symmetric])
  have fin: "ensurePragma (ensureLicense (join_nl (pushedLines False (False, 0) (split_nl y)))) = y"
    if "pushedLines False (False, 0) (split_nl y) = split_nl y"
    using that inc by (simp add: join_split ensureLicense_def ensurePragma_def)
  have sim: "simLines (split_nl c) (split_nl y)" unfolding y by (rule sim_clean)
  have KQ0: "pushedLines False (False, 0) Q0 = Q0"
  proof (cases "includesStr t SPDX")
    case True
    then have "t \<noteq> []" using NL_notin_SPDX(2) by (cases t) auto
    then have "P \<noteq> []" unfolding t_def by auto
    then have "split_nl t = P" unfolding t_def using nl by (intro split_join)
    moreover have "c1 = t" using True by (simp add: c1_def ensureLicense_def)
    ultimately show ?thesis using P by (simp add: Q0_def)
  next
    case False
    then have "c1 = defaultLicense @ NL # t" by (simp add: c1_def ensureLicense_def)
    then have q: "Q0 = defaultLicense # split_nl t"
      unfolding Q0_def using license_facts(1) by (simp add: split_nl_sep)
    have "pushedLines True (False, 0) (split_nl t) = split_nl t"
    proof (cases "P = []")
      case True
      then have "split_nl t = [[]]" by (simp add: t_def)
      then show ?thesis using blank_neutral[of "[]"] by simp
    next
      case False
      then have "split_nl t = P" unfolding t_def using nl by (intro split_join)
      then show ?thesis using kept_mono[OF P] by simp
    qed
    then show ?thesis unfolding q using defaults_neutral(1,2,3) by simp
  qed
  show ?thesis
  proof (cases "includesStr c1 PRAGMA")
    case True
    then have "c = c1" by (simp add: c' ensurePragma_def)
    then have "pushedLines False (False, 0) (split_nl c) = split_nl c"
      using KQ0 by (simp add: Q0_def)
    from fin[OF kept_sim[OF sim this]] show ?thesis .
  next
    case False
    from pragma_position[OF False s1] obtain i where
      i: "i < length Q0" "includesStr (Q0 ! i) SPDX" "\<forall>j<i. \<not> includesStr (Q0 ! j) SPDX"
      and sc: "split_nl c = take (Suc i) Q0 @ [defaultPragma] @ drop (Suc i) Q0"
      unfolding Q0_def c' by blast
    show ?thesis
    proof (cases "drop (Suc i) Q0 = []")
      case False
      have "pushedLines False (False, 0) (take (Suc i) Q0 @ drop (Suc i) Q0) =
              take (Suc i) Q0 @ drop (Suc i) Q0"
        using KQ0 by simp
      from insert_mid[OF defaults_neutral(4,5,6) this False]
      have "pushedLines False (False, 0) (split_nl c) = split_nl c"
        unfolding sc by simp
      from fin[OF kept_sim[OF sim this]] show ?thesis .
    next
      case True
      then have li: "length Q0 = Suc i" using i(1) by simp
      then have ne: "Q0 \<noteq> []" by auto
      have la: "last Q0 = Q0 ! i" using li ne by (simp add: last_conv_nth)
      have lo: "includesStr (last Q0) SPDX" "\<forall>l\<in>set (butlast Q0). \<not> includesStr l SPDX"
      proof -
        show "includesStr (last Q0) SPDX" using la i(2) by simp
        show "\<forall>l\<in>set (butlast Q0). \<not> includesStr l SPDX"
        proof
          fix l assume "l \<in> set (butlast Q0)"
          then obtain j where "j < length (butlast Q0)" "butlast Q0 ! j = l"
            by (auto simp: in_set_conv_nth)
          then have "j < i" "Q0 ! j = l" using li by (simp_all add: nth_butlast)
          then show "\<not> includesStr l SPDX" using i(3) by auto
        qed
      qed
      have sc': "split_nl c = Q0 @ [defaultPragma]" using sc True li by simp
      from sim_last[of Q0 defaultPragma "split_nl y"] sim sc' trim_defaultPragma
      obtain U z' where u: "split_nl y = U @ [z']" "trim z' = defaultPragma"
        "length z' \<le> length defaultPragma" "simLines Q0 U" by auto
      have z': "z' = defaultPragma" using trim_short[OF u(2,3)] .
      have KU: "pushedLines False (False, 0) U = U" using kept_sim[OF u(4) KQ0] .
      from sim_lastOnly[of "\<lambda>l. includesStr l SPDX", OF license_line_respects u(4) ne lo]
      have U: "U \<noteq> []" "includesStr (last U) SPDX" "\<forall>l\<in>set (butlast U). \<not> includesStr l SPDX"
        by simp_all
      from insert_end[OF defaults_neutral(4,5,6) KU]
      show ?thesis
      proof
        assume "pushedLines False (False, 0) (U @ [defaultPragma]) = U @ [defaultPragma]"
        then have "pushedLines False (False, 0) (split_nl y) = split_nl y" by (simp add: u(1) z')
        from fin[OF this] show ?thesis .
      next
        assume a: "pushedLines False (False, 0) (U @ [defaultPragma]) = U"
        define u where "u = join_nl U"
        have yu: "y = u @ NL # defaultPragma"
          using join_split[of y] unfolding u(1) z' u_def by (simp add: join_nl_snoc[OF U(1)])
        have "count_occ PRAGMA t = 0"
          using False ensureLicense_count[OF NL_notin_PRAGMA(2,1), of t]
          by (simp add: c1_def count_occ_zero[symmetric])
        then have "count_occ PRAGMA c = 1"
          unfolding c t_def[symmetric] cleaned_counts by (simp add: count_occ_zero)
        then have "count_occ PRAGMA u = 0"
          using cy(2) count_occ_sep[OF NL_notin_PRAGMA(1,2), of u defaultPragma] default_counts(4)
          by (simp add: yu)
        then have np: "\<not> includesStr u PRAGMA" by (simp add: count_occ_zero)
        have "count_occ SPDX u = count_occ SPDX y"
          using count_occ_sep[OF NL_notin_SPDX(1,2), of u defaultPragma] default_counts(3)
          by (simp add: yu)
        then have sp: "includesStr u SPDX" using cnt(1) cy(1) by (simp add: count_occ_pos[symmetric])
        have "\<forall>l\<in>set U. NL \<notin> set l"
          using split_nl_no_NL[of y] unfolding u(1) by simp
        then have su: "split_nl u = U" unfolding u_def using U(1) by (intro split_join)
        have fi: "findIndex (\<lambda>line. includesStr line SPDX) U = Some (length U - 1)"
          using findIndex_last[OF U] .
        have "ensurePragma u = join_nl (U @ [defaultPragma])"
          using np U(1) by (simp add: ensurePragma_def su fi)
        then have "ensurePragma (ensureLicense u) = y"
          using sp by (simp add: ensureLicense_def yu u_def join_nl_snoc[OF U(1)])
        then show ?thesis using a by (simp add: u(1) z' u_def)
      qed
    qed
  qed
qed

lemma sanitize_license_last:
  "validateAndCleanContract (Some ''contract A {\<newline>} // SPDX-License-Identifier: MIT'')
     = Inr ''contract A {\<newline>} // SPDX-License-Identifier: MIT\<newline>pragma solidity ^0.8.19;''"
  by code_simp


text \<open>
  Claim C7, as the code behaves. Let \<open>validateAndCleanContract\<close> return \<open>y\<close> for \<open>x\<close>, and
  let none of the patterns it deletes (the two code fences and the sixteen explanatory
  patterns) occur in \<open>y\<close>. If \<open>y\<close> contains a declaration keyword, a second run returns \<open>y\<close>
  again: the loop over the lines pushes every line of \<open>y\<close> (or every line but a default
  pragma at the end, which is then inserted again), license and pragma are not inserted
  twice, and collapsing and trimming change nothing. Otherwise the second run throws the
  error of the keyword check.
\<close>

theorem sanitize_idempotent_without_patterns:
  assumes "validateAndCleanContract (Some x) = Inr y"
    and "\<not> somePatternMatches y"
  shows "validateAndCleanContract (Some y) =
           (if hasDeclaration y then validateAndCleanContract (Some x)
            else Inl (Error ''Generated code does not contain a valid Solidity contract''))"
proof -
  define P where "P = pushedLines False (False, 0) (split_nl (stripText x))"
  define c where "c = ensurePragma (ensureLicense (cleanLines x))"
  have y: "y = trim (collapseBlank c)"
    using assms(1) unfolding sanitize_result c_def by simp
  have c: "c = ensurePragma (ensureLicense (join_nl P))"
    by (simp add: c_def P_def cleanLines_pushed)
  have k: "pushedLines False (False, 0) P = P" unfolding P_def by (rule pushed_idem)
  have nl: "\<forall>l\<in>set P. NL \<notin> set l"
    unfolding P_def using pushed_subset split_nl_no_NL by blast
  have e: "ensurePragma (ensureLicense (cleanLines y)) = y"
    using second_run[OF k nl c y] by (simp add: cleanLines_pushed stripText_no_match[OF assms(2)])
  have "0 < count_occ SPDX c"
    unfolding c_def cleaned_counts by (auto simp: count_occ_pos)
  moreover have "count_occ SPDX y = count_occ SPDX c"
    unfolding y by (rule count_occ_clean[OF NL_notin_SPDX(2,1,3,4)])
  ultimately have ne: "y \<noteq> []" using NL_notin_SPDX(2) by (cases y) auto
  have i: "trim (collapseBlank y) = y" unfolding y by (rule clean_idem)
  show ?thesis
    using assms(1) ne by (simp add: validateAndCleanContract_def e i)
qed

theorem sanitize_idempotent_without_patterns_witness:
  "validateAndCleanContract
     (Some ''// SPDX-License-Identifier: MIT\<newline>pragma solidity ^0.8.19;\<newline>contract A {\<newline>}'')
     = Inr ''// SPDX-License-Identifier: MIT\<newline>pragma solidity ^0.8.19;\<newline>contract A {\<newline>}'' \<and>
   validateAndCleanContract
     (Some ''contract A {\<newline>} // SPDX-License-Identifier: MIT\<newline>pragma solidity ^0.8.19;'')
     = Inr ''contract A {\<newline>} // SPDX-License-Identifier: MIT\<newline>pragma solidity ^0.8.19;'' \<and>
   validateAndCleanContract
     (Some ''// SPDX-License-Identifier: MIT\<newline>pragma solidity ^0.8.19;\<newline>contract'')
     = Inl (Error ''Generated code does not contain a valid Solidity contract'')"
proof -
  let ?y = "''// SPDX-License-Identifier: MIT\<newline>pragma solidity ^0.8.19;\<newline>contract A {\<newline>}''"
  let ?v = "''contract A {\<newline>} // SPDX-License-Identifier: MIT\<newline>pragma solidity ^0.8.19;''"
  let ?w = "''// SPDX-License-Identifier: MIT\<newline>pragma solidity ^0.8.19;\<newline>contract''"
  have n: "\<not> somePatternMatches ?y" "\<not> somePatternMatches ?v" "\<not> somePatternMatches ?w"
    by code_simp+
  have d: "hasDeclaration ?y" "hasDeclaration ?v" "\<not> hasDeclaration ?w"
    by code_simp+
  from sanitize_idempotent_without_patterns[OF sanitize_bare n(1)]
    sanitize_idempotent_without_patterns[OF sanitize_license_last n(2)]
    sanitize_idempotent_without_patterns[OF sanitize_trailing n(3)]
  show ?thesis using d sanitize_bare sanitize_license_last by simp
qed

section \<open>Properties of the request handler\<close>

lemma sanitize_plain:
  "validateAndCleanContract (Some ''pragma solidity ^0.8.19;\<newline>contract A {\<newline>}'')
     = Inr ''// SPDX-License-Identifier: MIT\<newline>pragma solidity ^0.8.19;\<newline>contract A {\<newline>}''"
  by code_simp

lemma generate_plain:
  "generateContract (newLLMService None) (answering ''pragma solidity ^0.8.19;\<newline>contract A {\<newline>}'')
     = (Inr (Some ''pragma solidity ^0.8.19;\<newline>contract A {\<newline>}''), [Attempt 1, HttpPost 1])"
  by code_simp




lemma handler_admitted:
  assumes "httpMethod req = ''POST''"
    and "checkRateLimit now (clientIp req) defaultLimit defaultWindow m = (True, m')"
  shows "handler env b now m req =
     (case handlerBody env b (body req) of
        (Inr resp, evs) \<Rightarrow> (resp, m', evs)
      | (Inl e, evs) \<Rightarrow>
          (ErrorResponse 500 ''Contract generation failed'' (errorName e) (Some (errorMessage e)),
           m', evs))"
  using assms by (simp add: handler_def)

lemma handler_response:
  assumes "httpMethod req = ''POST''"
    and "checkRateLimit now (clientIp req) defaultLimit defaultWindow m = (True, m')"
    and "handlerBody env b (body req) = (Inr resp, evs)"
  shows "handler env b now m req = (resp, m', evs)"
  using handler_admitted[OF assms(1,2)] assms(3) by simp

lemma admitted_pair:
  "fst (checkRateLimit now ip limit window m) \<Longrightarrow>
   checkRateLimit now ip limit window m =
     (True, m(ip \<mapsto> filter (\<lambda>time. now - time < window) (getRequests m ip) @ [now]))"
  by (simp add: checkRateLimit_def Let_def split: if_splits)









text \<open>
  Claim C10. For a POST that the rate limiter admits, the map after the request holds the
  time of the request for the client address, whatever the response is (also a 400
  ValidationError or a 500 after the provider failed): the map has changed and the
  address has one more request in its window.
\<close>

theorem admission_recorded_before_validation:
  assumes "httpMethod req = ''POST''"
    and "fst (checkRateLimit now (clientIp req) defaultLimit defaultWindow m)"
  shows "fst (snd (handler env b now m req)) =
           m(clientIp req \<mapsto>
               filter (\<lambda>time. now - time < defaultWindow) (getRequests m (clientIp req)) @ [now]) \<and>
         fst (snd (handler env b now m req)) \<noteq> m \<and>
         length (filter (\<lambda>time. now - time < defaultWindow)
                   (getRequests (fst (snd (handler env b now m req))) (clientIp req))) =
         length (filter (\<lambda>time. now - time < defaultWindow) (getRequests m (clientIp req))) + 1"
proof -
  let ?ip = "clientIp req"
  let ?valid = "filter (\<lambda>time. now - time < defaultWindow) (getRequests m ?ip)"
  let ?m' = "m(?ip \<mapsto> ?valid @ [now])"
  have cr: "checkRateLimit now ?ip defaultLimit defaultWindow m = (True, ?m')"
    by (rule admitted_pair[OF assms(2)])
  have st: "fst (snd (handler env b now m req)) = ?m'"
    unfolding handler_admitted[OF assms(1) cr] by (simp split: prod.splits sum.splits)
  have ne: "?m' \<noteq> m"
  proof
    assume "?m' = m"
    then have "m ?ip = Some (?valid @ [now])" by (metis fun_upd_same)
    then obtain r where r: "m ?ip = Some r" and rv: "r = ?valid @ [now]" by blast
    have g: "getRequests m ?ip = r" using r by (simp add: getRequests_def)
    let ?v = "filter (\<lambda>time. now - time < defaultWindow) r"
    have rv': "r = ?v @ [now]" using rv unfolding g .
    have "?v = filter (\<lambda>time. now - time < defaultWindow) (?v @ [now])"
      using rv' by simp
    also have "\<dots> = ?v @ [now]"
      by (simp add: defaultWindow_def)
    finally have "?v = ?v @ [now]" .
    then show False by simp
  qed
  have cnt: "length (filter (\<lambda>time. now - time < defaultWindow) (getRequests ?m' ?ip)) = length ?valid + 1"
    by (simp add: getRequests_def defaultWindow_def)
  show ?thesis using st ne cnt by simp
qed

theorem admission_recorded_before_validation_witness:
  "fst (handler None (failing ''down'') 1000 Map.empty
       \<lparr>httpMethod = ''POST'', xForwardedFor = Some ''10.0.0.1'', remoteAddress = None,
        body = Some \<lparr>requirements = Some ''a token'', contractType = None\<rparr>\<rparr>)
     = ErrorResponse 400 ''Requirements must be at least 10 characters long'' ''ValidationError'' None \<and>
   fst (snd (handler None (failing ''down'') 1000 Map.empty
       \<lparr>httpMethod = ''POST'', xForwardedFor = Some ''10.0.0.1'', remoteAddress = None,
        body = Some \<lparr>requirements = Some ''a token'', contractType = None\<rparr>\<rparr>)) ''10.0.0.1''
     = Some [1000]"
proof -
  let ?rb = "\<lparr>requirements = Some ''a token'', contractType = None\<rparr>"
  let ?req = "\<lparr>httpMethod = ''POST'', xForwardedFor = Some ''10.0.0.1'', remoteAddress = None,
        body = Some ?rb\<rparr>"
  let ?b = "failing ''down''"
  have h1: "httpMethod ?req = ''POST''" by simp
  have h2: "fst (checkRateLimit 1000 (clientIp ?req) defaultLimit defaultWindow Map.empty)"
    by (simp add: checkRateLimit_def getRequests_def defaultLimit_def)
  have ip: "clientIp ?req = ''10.0.0.1''"
    by (simp add: clientIp_def orDefault_def)
  have hb: "handlerBody None ?b (body ?req) =
      (Inr (ErrorResponse 400 ''Requirements must be at least 10 characters long'' ''ValidationError'' None), [])"
    by (simp add: handlerBody_def)
  have r: "fst (handler None ?b 1000 Map.empty ?req)
     = ErrorResponse 400 ''Requirements must be at least 10 characters long'' ''ValidationError'' None"
    using handler_response[OF _ admitted_pair hb, of 1000 Map.empty] h2 by simp
  from admission_recorded_before_validation[OF h1 h2, of None ?b]
  have "fst (snd (handler None ?b 1000 Map.empty ?req)) ''10.0.0.1'' = Some [1000]"
    by (simp add: ip getRequests_def)
  then show ?thesis using r by blast
qed

lemma handlerBody_success:
  assumes "handlerBody env b bd = (Inr (SuccessResponse c ty prov reqs), evs)"
  shows "\<exists>raw. generateContract (newLLMService env) b = (Inr raw, evs) \<and>
               validateAndCleanContract raw = Inr c"
  using assms
  by (auto simp: handlerBody_def Let_def split: option.splits if_splits prod.splits sum.splits)

lemma handler_success:
  assumes "fst (handler env b now m req) = SuccessResponse c ty prov reqs"
  shows "\<exists>evs. handlerBody env b (body req) = (Inr (SuccessResponse c ty prov reqs), evs)"
proof -
  obtain adm m' where cr: "checkRateLimit now (clientIp req) defaultLimit defaultWindow m = (adm, m')"
    by (cases "checkRateLimit now (clientIp req) defaultLimit defaultWindow m") blast
  obtain res evs where hb: "handlerBody env b (body req) = (res, evs)"
    by (cases "handlerBody env b (body req)") blast
  show ?thesis
    using assms by (cases res) (auto simp: handler_def cr hb split: if_splits)
qed

lemma first_request_run:
  assumes "handlerBody env b (Some rb) = (Inr resp, evs)"
  shows "fst (handler env b 1000 Map.empty
            \<lparr>httpMethod = ''POST'', xForwardedFor = Some ''10.0.0.1'', remoteAddress = None,
             body = Some rb\<rparr>) = resp"
proof -
  let ?req = "\<lparr>httpMethod = ''POST'', xForwardedFor = Some ''10.0.0.1'', remoteAddress = None,
             body = Some rb\<rparr>"
  have adm: "fst (checkRateLimit 1000 (clientIp ?req) defaultLimit defaultWindow Map.empty)"
    by (simp add: checkRateLimit_def getRequests_def defaultLimit_def)
  have hb: "handlerBody env b (body ?req) = (Inr resp, evs)" using assms by simp
  show ?thesis
    by (simp add: handler_response[OF _ admitted_pair[OF adm] hb])
qed

lemma detect_token: "detectContractType ''a token for me'' = ''erc20''"
  by code_simp

lemma generate_trailing:
  "generateContract (newLLMService None) (answering ''pragma solidity ^0.8.19;\<newline>contract '')
     = (Inr (Some ''pragma solidity ^0.8.19;\<newline>contract ''), [Attempt 1, HttpPost 1])"
  by code_simp

text \<open>
  Claim C1 as stated fails in its second part: the contract of this success response is
  the sanitizer's output, and it contains none of \<open>contract \<close>, \<open>interface \<close>, \<open>library \<close>,
  because the sanitizer checks for them before it trims the text.
\<close>

theorem success_without_keyword_counterexample:
  "fst (handler None (answering ''pragma solidity ^0.8.19;\<newline>contract '') 1000 Map.empty
          \<lparr>httpMethod = ''POST'', xForwardedFor = Some ''10.0.0.1'', remoteAddress = None,
           body = Some \<lparr>requirements = Some ''a token for me'', contractType = None\<rparr>\<rparr>)
     = SuccessResponse ''// SPDX-License-Identifier: MIT\<newline>pragma solidity ^0.8.19;\<newline>contract''
         ''erc20'' None ''a token for me'' \<and>
   \<not> includesStr ''// SPDX-License-Identifier: MIT\<newline>pragma solidity ^0.8.19;\<newline>contract'' ''contract '' \<and>
   \<not> includesStr ''// SPDX-License-Identifier: MIT\<newline>pragma solidity ^0.8.19;\<newline>contract'' ''interface '' \<and>
   \<not> includesStr ''// SPDX-License-Identifier: MIT\<newline>pragma solidity ^0.8.19;\<newline>contract'' ''library ''"
proof -
  have hb: "handlerBody None (answering ''pragma solidity ^0.8.19;\<newline>contract '')
       (Some \<lparr>requirements = Some ''a token for me'', contractType = None\<rparr>) =
     (Inr (SuccessResponse ''// SPDX-License-Identifier: MIT\<newline>pragma solidity ^0.8.19;\<newline>contract''
         ''erc20'' None ''a token for me''), [Attempt 1, HttpPost 1])"
    by (simp add: handlerBody_def generate_trailing sanitize_trailing orDefault_def detect_token)
  show ?thesis
    using first_request_run[OF hb] no_declaration_left by (simp add: hasDeclaration_def)
qed

text \<open>
  Claim C1, as the code behaves. The contract of every success response is what
  \<open>validateAndCleanContract\<close> returned for the text of the provider: that text was a string,
  it passed the check for a declaration keyword before the final white-space clean-up, and
  the contract is the checked text with its blank lines collapsed and trimmed. So the
  contract contains one of the words \<open>contract\<close>, \<open>interface\<close>, \<open>library\<close>; the blank
  behind the word may have been trimmed away.
\<close>

theorem success_is_sanitized:
  assumes "fst (handler env b now m req) = SuccessResponse c ty prov reqs"
  shows "\<exists>raw. fst (generateContract (newLLMService env) b) = Inr (Some raw) \<and>
           validateAndCleanContract (Some raw) = Inr c \<and>
           hasDeclaration (ensurePragma (ensureLicense (cleanLines raw))) \<and>
           c = trim (collapseBlank (ensurePragma (ensureLicense (cleanLines raw)))) \<and>
           (includesStr c ''contract'' \<or> includesStr c ''interface'' \<or> includesStr c ''library'')"
proof -
  from handler_success[OF assms] obtain evs where
    "handlerBody env b (body req) = (Inr (SuccessResponse c ty prov reqs), evs)" by blast
  from handlerBody_success[OF this] obtain raw where
    g: "generateContract (newLLMService env) b = (Inr raw, evs)"
    and v: "validateAndCleanContract raw = Inr c" by blast
  obtain code where raw: "raw = Some code"
    using v by (cases raw) (simp_all add: validateAndCleanContract_def)
  have r: "hasDeclaration (ensurePragma (ensureLicense (cleanLines code)))"
    "c = trim (collapseBlank (ensurePragma (ensureLicense (cleanLines code))))"
    using v unfolding raw sanitize_result by simp_all
  have "includesStr c ''contract'' \<or> includesStr c ''interface'' \<or> includesStr c ''library''"
    unfolding r(2) by (rule declaration_word_left[OF r(1)])
  then show ?thesis using g v r raw by auto
qed

theorem success_is_sanitized_witness:
  "fst (handler None (answering ''pragma solidity ^0.8.19;\<newline>contract A {\<newline>}'') 1000 Map.empty
          \<lparr>httpMethod = ''POST'', xForwardedFor = Some ''10.0.0.1'', remoteAddress = None,
           body = Some \<lparr>requirements = Some ''a token for me'', contractType = None\<rparr>\<rparr>)
     = SuccessResponse
         ''// SPDX-License-Identifier: MIT\<newline>pragma solidity ^0.8.19;\<newline>contract A {\<newline>}''
         ''erc20'' None ''a token for me'' \<and>
   validateAndCleanContract (Some ''pragma solidity ^0.8.19;\<newline>contract A {\<newline>}'')
     = Inr ''// SPDX-License-Identifier: MIT\<newline>pragma solidity ^0.8.19;\<newline>contract A {\<newline>}'' \<and>
   (includesStr ''// SPDX-License-Identifier: MIT\<newline>pragma solidity ^0.8.19;\<newline>contract A {\<newline>}'' ''contract'' \<or>
    includesStr ''// SPDX-License-Identifier: MIT\<newline>pragma solidity ^0.8.19;\<newline>contract A {\<newline>}'' ''interface'' \<or>
    includesStr ''// SPDX-License-Identifier: MIT\<newline>pragma solidity ^0.8.19;\<newline>contract A {\<newline>}'' ''library'')"
proof -
  have hb: "handlerBody None (answering ''pragma solidity ^0.8.19;\<newline>contract A {\<newline>}'')
       (Some \<lparr>requirements = Some ''a token for me'', contractType = None\<rparr>) =
     (Inr (SuccessResponse
         ''// SPDX-License-Identifier: MIT\<newline>pragma solidity ^0.8.19;\<newline>contract A {\<newline>}''
         ''erc20'' None ''a token for me''), [Attempt 1, HttpPost 1])"
    by (simp add: handlerBody_def generate_plain sanitize_plain orDefault_def detect_token)
  note h = first_request_run[OF hb]
  from success_is_sanitized[OF h] h sanitize_plain show ?thesis by blast
qed

end
